theory Spec2Isabelle
  imports Main "HOL-Library.Word" "HOL-Library.List_Lexorder"
begin

section \<open>TypeSeq: a typed flat-record codec\<close>

text \<open>
  A shallow embedding of the TypeSeq encoder, decoder and schema validator
  (\<^verbatim>\<open>splitOutsideQuotes\<close>, \<^verbatim>\<open>inferAlias\<close>, \<^verbatim>\<open>encodeValue\<close>, \<^verbatim>\<open>encode\<close>,
  \<^verbatim>\<open>decode\<close>, \<^verbatim>\<open>decodeWithSchema\<close> and the parser table \<^verbatim>\<open>ALIAS_TO_PARSER\<close>).
  Definitions come first, the theorems about them follow.
\<close>

subsection \<open>Strings\<close>

text \<open>
  A JavaScript string is a sequence of 16-bit UTF-16 code units; \<open>length\<close>,
  indexing, \<^verbatim>\<open>===\<close>, \<^verbatim>\<open>trim\<close> and the default \<^verbatim>\<open>sort\<close> all work on code
  units. \<open>js\<close> writes a literal of ASCII text as such a string.
\<close>

type_synonym jschar = "16 word"
type_synonym jsstring = "jschar list"

definition js :: "string \<Rightarrow> jsstring" where
  "js s = map (\<lambda>c. of_nat (of_char c)) s"

abbreviation (input) BACKSLASH :: jschar where "BACKSLASH \<equiv> 0x5C"
abbreviation (input) DQUOTE :: jschar where "DQUOTE \<equiv> 0x22"
abbreviation (input) SEMICOLON :: jschar where "SEMICOLON \<equiv> 0x3B"
abbreviation (input) PIPE :: jschar where "PIPE \<equiv> 0x7C"

text \<open>\<^verbatim>\<open>Array.prototype.join\<close> on an array of strings.\<close>

fun join :: "jsstring \<Rightarrow> jsstring list \<Rightarrow> jsstring" where
  "join sep [] = []"
| "join sep [x] = x"
| "join sep (x # y # ys) = x @ sep @ join sep (y # ys)"

subsection \<open>Tokenizer\<close>

text \<open>
  The \<^verbatim>\<open>for\<close> loop of \<^verbatim>\<open>splitOutsideQuotes\<close>, one call per character, with the
  loop's four variables \<^verbatim>\<open>out\<close>, \<^verbatim>\<open>buf\<close>, \<^verbatim>\<open>inQuotes\<close>, \<^verbatim>\<open>escaped\<close> passed along
  and the branches in the order of the source. The separator is a string, as in
  the source, compared with the one-character string \<^verbatim>\<open>ch\<close>.
\<close>

fun splitLoop ::
  "jsstring \<Rightarrow> jsstring \<Rightarrow> jsstring list \<Rightarrow> jsstring \<Rightarrow> bool \<Rightarrow> bool \<Rightarrow> jsstring list" where
  "splitLoop sepChar [] out buf inQuotes escaped = out @ [buf]"
| "splitLoop sepChar (ch # rest) out buf inQuotes escaped =
    (if escaped then splitLoop sepChar rest out (buf @ [ch]) inQuotes False
     else if ch = BACKSLASH then splitLoop sepChar rest out (buf @ [ch]) inQuotes True
     else if ch = DQUOTE then splitLoop sepChar rest out (buf @ [ch]) (\<not> inQuotes) escaped
     else if \<not> inQuotes \<and> [ch] = sepChar then splitLoop sepChar rest (out @ [buf]) [] inQuotes escaped
     else splitLoop sepChar rest out (buf @ [ch]) inQuotes escaped)"

definition splitOutsideQuotes :: "jsstring \<Rightarrow> jsstring \<Rightarrow> jsstring list" where
  "splitOutsideQuotes input sepChar = splitLoop sepChar input [] [] False False"

text \<open>
  The scan as the specification words it, kept apart from the code: a backslash
  that is not itself escaped escapes the next character, an unescaped double
  quote toggles the quote state. \<open>scanState\<close> is the pair
  (\<open>inQuotes\<close>, \<open>escaped\<close>) reached after a text, and \<open>effectiveSeparators\<close>
  counts the occurrences of the separator character that are unescaped and
  outside the quote state.
\<close>

fun scanStep :: "bool \<times> bool \<Rightarrow> jschar \<Rightarrow> bool \<times> bool" where
  "scanStep (inQuotes, escaped) ch =
     (if escaped then (inQuotes, False)
      else if ch = BACKSLASH then (inQuotes, True)
      else if ch = DQUOTE then (\<not> inQuotes, False)
      else (inQuotes, False))"

definition scanState :: "bool \<times> bool \<Rightarrow> jsstring \<Rightarrow> bool \<times> bool" where
  "scanState st input = foldl scanStep st input"

fun effectiveSeparators :: "jschar \<Rightarrow> bool \<times> bool \<Rightarrow> jsstring \<Rightarrow> nat" where
  "effectiveSeparators sep st [] = 0"
| "effectiveSeparators sep st (ch # rest) =
     (if ch = sep \<and> \<not> snd st \<and> \<not> fst st then 1 else 0)
       + effectiveSeparators sep (scanStep st ch) rest"

text \<open>
  A quote opened at the start of \<open>rest\<close> is unterminated when the scan of
  \<open>rest\<close>, begun inside quotes, is inside quotes after every prefix.
\<close>

definition staysQuoted :: "jsstring \<Rightarrow> bool" where
  "staysQuoted rest = (\<forall>n \<in> set [0 ..< Suc (length rest)]. fst (scanState (True, False) (take n rest)))"

subsection \<open>Values\<close>

text \<open>
  A finite number is written \<open>Finite m e\<close> for \<open>m \<times> 10\<^sup>e\<close>, where the digits of
  \<open>m\<close> are the shortest decimal digits that identify the number: the digits and
  exponent from which \<^verbatim>\<open>Number::toString\<close> is defined. Negative zero is a value
  of its own. Binary rounding is not part of this model.
\<close>

datatype jsnumber = Finite int int | NegZero | NaN | PosInfinity | NegInfinity

text \<open>A \<^verbatim>\<open>Date\<close> holds a time value, milliseconds since the epoch, or NaN.\<close>

datatype jsdate = ValidDate int | InvalidDate

text \<open>
  The runtime values the program meets. \<open>VStringObject\<close> is a wrapper object made
  by \<^verbatim>\<open>Object(text)\<close>; \<open>VUnsupported t\<close> is any other value (a function, an
  object, a symbol), \<open>t\<close> being what \<^verbatim>\<open>typeof\<close> reports for it.
\<close>

datatype jsvalue =
    VString jsstring
  | VNumber jsnumber
  | VBoolean bool
  | VDate jsdate
  | VNull
  | VUndefined
  | VStringObject jsstring
  | VUnsupported jsstring

datatype typeAlias = S | N | B | D | X

fun aliasText :: "typeAlias \<Rightarrow> jsstring" where
  "aliasText S = js ''s''"
| "aliasText N = js ''n''"
| "aliasText B = js ''b''"
| "aliasText D = js ''d''"
| "aliasText X = js ''x''"

text \<open>
  Every \<^verbatim>\<open>throw\<close> of the program and every exception of a built-in it calls.
  The payload is what the message interpolates. Three throws have no
  constructor, because the types below exclude their conditions: \<^verbatim>\<open>encode\<close> on
  what is no plain object, \<^verbatim>\<open>decode\<close> on what is no string, and \<^verbatim>\<open>encodeValue\<close>
  on an alias outside the five.
\<close>

datatype error =
    UnsupportedType jsstring
  | ExpectedDate jsstring
  | InvalidRow jsstring
  | EmptyKey jsstring
  | UnknownTypeAlias jsstring jsstring
  | InvalidBoolean jsstring
  | InvalidDateText jsstring
  | MissingRequiredKey jsstring
  | TypeMismatch jsstring typeAlias typeAlias
  | SyntaxError
  | RangeError
  | TypeError

text \<open>
  A plain object is the list of its own enumerable properties, each key once.
  \<^verbatim>\<open>isPlainObject\<close> holds of every such object, so the guard of \<^verbatim>\<open>encode\<close> never
  fires on this type, as the guard \<^verbatim>\<open>typeof str !== 'string'\<close> of \<^verbatim>\<open>decode\<close> never
  fires on a string.
\<close>

type_synonym jsrecord = "(jsstring \<times> jsvalue) list"

definition Object_keys :: "(jsstring \<times> 'a) list \<Rightarrow> jsstring list" where
  "Object_keys obj = map fst obj"

definition getOwn :: "jsrecord \<Rightarrow> jsstring \<Rightarrow> jsvalue" where
  "getOwn obj key = (case map_of obj key of Some v \<Rightarrow> v | None \<Rightarrow> VUndefined)"

subsection \<open>Built-ins used by the encoder\<close>

text \<open>Decimal digits of a natural number, and left padding with zeros.\<close>

fun digitsOf :: "nat \<Rightarrow> jsstring" where
  "digitsOf n = (if n < 10 then [of_nat (48 + n)] else digitsOf (n div 10) @ [of_nat (48 + n mod 10)])"

declare digitsOf.simps [simp del]

definition padStart :: "nat \<Rightarrow> jsstring \<Rightarrow> jsstring" where
  "padStart width s = replicate (width - length s) 0x30 @ s"

text \<open>
  \<^verbatim>\<open>String(n)\<close>, that is \<^verbatim>\<open>Number::toString\<close> with radix 10: \<open>k\<close> digits, and \<open>n\<close>
  the position of the decimal point relative to the first digit.
\<close>

definition formatDecimal :: "jsstring \<Rightarrow> int \<Rightarrow> jsstring" where
  "formatDecimal digits n =
     (let k = int (length digits) in
      if k \<le> n \<and> n \<le> 21 then digits @ replicate (nat (n - k)) 0x30
      else if 0 < n \<and> n \<le> 21 then take (nat n) digits @ js ''.'' @ drop (nat n) digits
      else if -6 < n \<and> n \<le> 0 then js ''0.'' @ replicate (nat (- n)) 0x30 @ digits
      else
        (let ex = n - 1;
             sign = (if ex < 0 then js ''-'' else js ''+'');
             exDigits = digitsOf (nat \<bar>ex\<bar>)
         in if k = 1 then digits @ js ''e'' @ sign @ exDigits
            else take 1 digits @ js ''.'' @ drop 1 digits @ js ''e'' @ sign @ exDigits))"

fun numberToString :: "jsnumber \<Rightarrow> jsstring" where
  "numberToString NaN = js ''NaN''"
| "numberToString NegZero = js ''0''"
| "numberToString PosInfinity = js ''Infinity''"
| "numberToString NegInfinity = js ''-Infinity''"
| "numberToString (Finite m e) =
     (if m = 0 then js ''0''
      else (if m < 0 then js ''-'' else []) @
           formatDecimal (digitsOf (nat \<bar>m\<bar>)) (int (length (digitsOf (nat \<bar>m\<bar>))) + e))"

fun isFiniteNumber :: "jsnumber \<Rightarrow> bool" where
  "isFiniteNumber (Finite m e) = True"
| "isFiniteNumber NegZero = True"
| "isFiniteNumber n = False"

text \<open>\<^verbatim>\<open>Number.isFinite\<close>: false for everything that is not a number.\<close>

fun Number_isFinite :: "jsvalue \<Rightarrow> bool" where
  "Number_isFinite (VNumber n) = isFiniteNumber n"
| "Number_isFinite v = False"

text \<open>
  \<^verbatim>\<open>Date.prototype.toISOString\<close>: a RangeError on an invalid date, else the UTC
  calendar fields of the time value, the year in four digits or, outside
  0..9999, signed in six.
\<close>

definition civilFromDays :: "int \<Rightarrow> int \<times> int \<times> int" where
  "civilFromDays days =
     (let z = days + 719468;
          era = z div 146097;
          doe = z mod 146097;
          yoe = (doe - doe div 1460 + doe div 36524 - doe div 146096) div 365;
          doy = doe - (365 * yoe + yoe div 4 - yoe div 100);
          mp = (5 * doy + 2) div 153;
          d = doy - (153 * mp + 2) div 5 + 1;
          m = (if mp < 10 then mp + 3 else mp - 9);
          y = yoe + era * 400 + (if m \<le> 2 then 1 else 0)
      in (y, m, d))"

definition pad :: "nat \<Rightarrow> int \<Rightarrow> jsstring" where
  "pad width n = padStart width (digitsOf (nat n))"

definition isoYear :: "int \<Rightarrow> jsstring" where
  "isoYear y =
     (if 0 \<le> y \<and> y \<le> 9999 then pad 4 y
      else (if y < 0 then js ''-'' else js ''+'') @ pad 6 \<bar>y\<bar>)"

fun toISOString :: "jsdate \<Rightarrow> error + jsstring" where
  "toISOString InvalidDate = Inl RangeError"
| "toISOString (ValidDate t) =
     (let (y, m, d) = civilFromDays (t div 86400000);
          ms = t mod 86400000
      in Inr (isoYear y @ js ''-'' @ pad 2 m @ js ''-'' @ pad 2 d @ js ''T''
              @ pad 2 (ms div 3600000) @ js '':'' @ pad 2 (ms div 60000 mod 60) @ js '':''
              @ pad 2 (ms div 1000 mod 60) @ js ''.'' @ pad 3 (ms mod 1000) @ js ''Z''))"

text \<open>
  \<^verbatim>\<open>JSON.stringify\<close> of a string (\<^verbatim>\<open>QuoteJSONString\<close>): the two-character
  escapes, \<^verbatim>\<open>\uXXXX\<close> in lower-case hexadecimal for the other control characters
  and for a surrogate that is not half of a pair, everything else as it is.
\<close>

definition hexDigit :: "nat \<Rightarrow> jschar" where
  "hexDigit d = (if d < 10 then of_nat (48 + d) else of_nat (87 + d))"

definition unicodeEscape :: "jschar \<Rightarrow> jsstring" where
  "unicodeEscape c =
     [BACKSLASH, 0x75, hexDigit (unat c div 4096), hexDigit (unat c div 256 mod 16),
      hexDigit (unat c div 16 mod 16), hexDigit (unat c mod 16)]"

definition isLeadingSurrogate :: "jschar \<Rightarrow> bool" where
  "isLeadingSurrogate c = (0xD800 \<le> c \<and> c \<le> 0xDBFF)"

definition isTrailingSurrogate :: "jschar \<Rightarrow> bool" where
  "isTrailingSurrogate c = (0xDC00 \<le> c \<and> c \<le> 0xDFFF)"

definition quoteChar :: "jschar \<Rightarrow> jsstring" where
  "quoteChar c =
     (if c = 0x08 then [BACKSLASH, 0x62]
      else if c = 0x09 then [BACKSLASH, 0x74]
      else if c = 0x0A then [BACKSLASH, 0x6E]
      else if c = 0x0C then [BACKSLASH, 0x66]
      else if c = 0x0D then [BACKSLASH, 0x72]
      else if c = DQUOTE then [BACKSLASH, DQUOTE]
      else if c = BACKSLASH then [BACKSLASH, BACKSLASH]
      else if c < 0x20 \<or> isLeadingSurrogate c \<or> isTrailingSurrogate c then unicodeEscape c
      else [c])"

fun quoteChars :: "jsstring \<Rightarrow> jsstring" where
  "quoteChars [] = []"
| "quoteChars [c] = quoteChar c"
| "quoteChars (c # d # rest) =
     (if isLeadingSurrogate c \<and> isTrailingSurrogate d then c # d # quoteChars rest
      else quoteChar c @ quoteChars (d # rest))"

definition QuoteJSONString :: "jsstring \<Rightarrow> jsstring" where
  "QuoteJSONString s = DQUOTE # quoteChars s @ [DQUOTE]"

text \<open>
  \<^verbatim>\<open>JSON.stringify\<close> of a value of a supported kind. (For the other kinds the text
  depends on structure the model does not carry; the encoder never passes one,
  \<^verbatim>\<open>inferAlias\<close> raises first. A function or \<^verbatim>\<open>undefined\<close> gives \<^verbatim>\<open>undefined\<close>,
  which the row template prints as such.)
\<close>

fun JSON_stringify :: "jsvalue \<Rightarrow> jsstring" where
  "JSON_stringify (VString s) = QuoteJSONString s"
| "JSON_stringify (VNumber n) = (if isFiniteNumber n then numberToString n else js ''null'')"
| "JSON_stringify (VBoolean b) = (if b then js ''true'' else js ''false'')"
| "JSON_stringify (VDate d) = (case toISOString d of Inl e \<Rightarrow> js ''null'' | Inr isoText \<Rightarrow> QuoteJSONString isoText)"
| "JSON_stringify VNull = js ''null''"
| "JSON_stringify (VStringObject s) = QuoteJSONString s"
| "JSON_stringify v = js ''undefined''"

text \<open>Truthiness, for the conditional of the \<^verbatim>\<open>b\<close> branch.\<close>

fun truthy :: "jsvalue \<Rightarrow> bool" where
  "truthy (VBoolean b) = b"
| "truthy (VString s) = (s \<noteq> [])"
| "truthy (VNumber n) = (case n of Finite m e \<Rightarrow> m \<noteq> 0 | NegZero \<Rightarrow> False | NaN \<Rightarrow> False | _ \<Rightarrow> True)"
| "truthy VNull = False"
| "truthy VUndefined = False"
| "truthy v = True"

subsection \<open>Encoder\<close>

fun inferAlias :: "jsvalue \<Rightarrow> error + typeAlias" where
  "inferAlias VNull = Inr X"
| "inferAlias (VDate d) = Inr D"
| "inferAlias (VString s) = Inr S"
| "inferAlias (VNumber n) = Inr N"
| "inferAlias (VBoolean b) = Inr B"
| "inferAlias VUndefined = Inl (UnsupportedType (js ''undefined''))"
| "inferAlias (VStringObject s) = Inl (UnsupportedType (js ''object''))"
| "inferAlias (VUnsupported t) = Inl (UnsupportedType t)"

fun encodeValue :: "typeAlias \<Rightarrow> jsstring \<Rightarrow> jsvalue \<Rightarrow> error + jsstring" where
  "encodeValue X key value = Inr []"
| "encodeValue S key value = Inr (JSON_stringify value)"
| "encodeValue N key value =
     (if \<not> Number_isFinite value then Inr []
      else case value of VNumber n \<Rightarrow> Inr (numberToString n) | _ \<Rightarrow> Inr [])"
| "encodeValue B key value = Inr (if truthy value then js ''true'' else js ''false'')"
| "encodeValue D key value =
     (case value of
        VDate d \<Rightarrow> (case toISOString d of Inl e \<Rightarrow> Inl e | Inr isoText \<Rightarrow> Inr (QuoteJSONString isoText))
      | _ \<Rightarrow> Inl (ExpectedDate key))"

text \<open>
  The loop of \<^verbatim>\<open>encode\<close> over the sorted keys, \<^verbatim>\<open>rows\<close> being the rows pushed so
  far. The default \<^verbatim>\<open>sort\<close> orders strings by their code units, which is the
  lexicographic order of \<open>jsstring\<close>.
\<close>

fun encodeLoop :: "jsrecord \<Rightarrow> jsstring list \<Rightarrow> jsstring list \<Rightarrow> error + jsstring list" where
  "encodeLoop obj [] rows = Inr rows"
| "encodeLoop obj (key # keys) rows =
     (let v = getOwn obj key in
      if v = VUndefined then encodeLoop obj keys rows
      else case inferAlias v of
             Inl e \<Rightarrow> Inl e
           | Inr alias \<Rightarrow>
               (case encodeValue alias key v of
                  Inl e \<Rightarrow> Inl e
                | Inr encodedValue \<Rightarrow>
                    encodeLoop obj keys
                      (rows @ [key @ js '';'' @ aliasText alias @ js '';'' @ encodedValue])))"

definition encode :: "jsrecord \<Rightarrow> error + jsstring" where
  "encode obj =
     (case encodeLoop obj (sort (Object_keys obj)) [] of
        Inl e \<Rightarrow> Inl e
      | Inr rows \<Rightarrow> Inr (join (js ''|'') rows))"

text \<open>
  Two names for stating properties of the loop: the row that one iteration
  pushes for a key and its value, and the keys that get a row, in the order of
  the loop.
\<close>

definition encodeRow :: "jsstring \<Rightarrow> jsvalue \<Rightarrow> error + jsstring" where
  "encodeRow key v =
     (case inferAlias v of
        Inl e \<Rightarrow> Inl e
      | Inr alias \<Rightarrow>
          (case encodeValue alias key v of
             Inl e \<Rightarrow> Inl e
           | Inr encodedValue \<Rightarrow> Inr (key @ js '';'' @ aliasText alias @ js '';'' @ encodedValue)))"

definition presentKeys :: "jsrecord \<Rightarrow> jsstring list" where
  "presentKeys obj = filter (\<lambda>k. getOwn obj k \<noteq> VUndefined) (sort (Object_keys obj))"

text \<open>The three edge states of a field: omitted, non-finite number, explicit null.\<close>

fun edgeState :: "jsvalue \<Rightarrow> bool" where
  "edgeState VUndefined = True"
| "edgeState VNull = True"
| "edgeState (VNumber n) = (\<not> isFiniteNumber n)"
| "edgeState v = False"

text \<open>
  The code points of a string, as the specification's ``code-point order''
  needs them: a leading surrogate followed by a trailing one is one code point
  above \<open>0xFFFF\<close>, every other code unit is its own code point.
\<close>

fun codePoints :: "jsstring \<Rightarrow> nat list" where
  "codePoints [] = []"
| "codePoints [c] = [unat c]"
| "codePoints (c # d # rest) =
     (if isLeadingSurrogate c \<and> isTrailingSurrogate d
      then (0x10000 + (unat c - 0xD800) * 0x400 + (unat d - 0xDC00)) # codePoints rest
      else unat c # codePoints (d # rest))"

subsection \<open>Built-ins used by the decoder\<close>

text \<open>
  \<^verbatim>\<open>String.prototype.trim\<close> removes white space and line terminators at both
  ends.
\<close>

definition isWhiteSpace :: "jschar \<Rightarrow> bool" where
  "isWhiteSpace c =
     (c \<in> set [0x09, 0x0A, 0x0B, 0x0C, 0x0D, 0x20, 0xA0, 0x1680, 0x2028, 0x2029,
                0x202F, 0x205F, 0x3000, 0xFEFF]
      \<or> (0x2000 \<le> c \<and> c \<le> 0x200A))"

definition trim :: "jsstring \<Rightarrow> jsstring" where
  "trim s = rev (dropWhile isWhiteSpace (rev (dropWhile isWhiteSpace s)))"

text \<open>
  \<^verbatim>\<open>toLowerCase\<close> on the letters A to Z. The built-in maps other letters as
  well, but no character outside A to Z has a lower-case form that contains a
  letter of \<^verbatim>\<open>true\<close> or \<^verbatim>\<open>false\<close>, so the two comparisons of the \<^verbatim>\<open>b\<close> parser,
  the only use of the function, are decided by these letters.
\<close>

definition toLowerCase :: "jsstring \<Rightarrow> jsstring" where
  "toLowerCase s = map (\<lambda>c. if 0x41 \<le> c \<and> c \<le> 0x5A then c + 0x20 else c) s"

text \<open>\<^verbatim>\<open>t.startsWith('"') && t.endsWith('"')\<close>; a text of one quote has both.\<close>

definition quoted :: "jsstring \<Rightarrow> bool" where
  "quoted t = (t \<noteq> [] \<and> hd t = DQUOTE \<and> last t = DQUOTE)"

text \<open>
  \<^verbatim>\<open>JSON.parse\<close> on a text whose first character is a double quote, the only
  texts the program passes to it: the JSON grammar admits there one string
  literal, followed by JSON white space only. Every other text is a
  SyntaxError here (the value it might denote is not a string).
\<close>

definition hexValue :: "jschar \<Rightarrow> nat option" where
  "hexValue c =
     (if 0x30 \<le> c \<and> c \<le> 0x39 then Some (unat c - 48)
      else if 0x41 \<le> c \<and> c \<le> 0x46 then Some (unat c - 55)
      else if 0x61 \<le> c \<and> c \<le> 0x66 then Some (unat c - 87)
      else None)"

definition unescapeChar :: "jschar \<Rightarrow> jschar option" where
  "unescapeChar e =
     (if e = DQUOTE then Some DQUOTE
      else if e = BACKSLASH then Some BACKSLASH
      else if e = 0x2F then Some 0x2F
      else if e = 0x62 then Some 0x08
      else if e = 0x66 then Some 0x0C
      else if e = 0x6E then Some 0x0A
      else if e = 0x72 then Some 0x0D
      else if e = 0x74 then Some 0x09
      else None)"

definition isJSONWhiteSpace :: "jschar \<Rightarrow> bool" where
  "isJSONWhiteSpace c = (c = 0x09 \<or> c = 0x0A \<or> c = 0x0D \<or> c = 0x20)"

fun consResult :: "jschar \<Rightarrow> error + jsstring \<Rightarrow> error + jsstring" where
  "consResult c (Inl e) = Inl e"
| "consResult c (Inr s) = Inr (c # s)"

fun parseStringChars :: "jsstring \<Rightarrow> error + jsstring" where
  "parseStringChars [] = Inl SyntaxError"
| "parseStringChars (c # rest) =
     (if c = DQUOTE then (if list_all isJSONWhiteSpace rest then Inr [] else Inl SyntaxError)
      else if c = BACKSLASH then
        (case rest of
           [] \<Rightarrow> Inl SyntaxError
         | e # rest1 \<Rightarrow>
             if e = 0x75 then
               (case rest1 of
                  h1 # h2 # h3 # h4 # rest2 \<Rightarrow>
                    (case (hexValue h1, hexValue h2, hexValue h3, hexValue h4) of
                       (Some a, Some b, Some c', Some d) \<Rightarrow>
                         consResult (of_nat (a * 4096 + b * 256 + c' * 16 + d)) (parseStringChars rest2)
                     | _ \<Rightarrow> Inl SyntaxError)
                | _ \<Rightarrow> Inl SyntaxError)
             else
               (case unescapeChar e of
                  None \<Rightarrow> Inl SyntaxError
                | Some u \<Rightarrow> consResult u (parseStringChars rest1)))
      else if c < 0x20 then Inl SyntaxError
      else consResult c (parseStringChars rest))"

definition JSON_parse :: "jsstring \<Rightarrow> error + jsstring" where
  "JSON_parse text =
     (case text of
        [] \<Rightarrow> Inl SyntaxError
      | c # rest \<Rightarrow> if c = DQUOTE then parseStringChars rest else Inl SyntaxError)"

text \<open>
  What the program takes from its host and ECMAScript leaves to floating-point
  rounding or to the implementation: \<^verbatim>\<open>Number(text)\<close>, \<^verbatim>\<open>new Date(text)\<close>, and the
  members that an object finds on a \<^verbatim>\<open>Date\<close> or \<^verbatim>\<open>String\<close> instance serving as its
  prototype (own properties of the instance, \<^verbatim>\<open>Date.prototype\<close>,
  \<^verbatim>\<open>String.prototype\<close>). They are parameters of the decoder.
\<close>

record host =
  Number_of :: "jsstring \<Rightarrow> jsnumber"
  Date_of :: "jsstring \<Rightarrow> jsdate"
  instanceMember :: "jsvalue \<Rightarrow> jsstring \<Rightarrow> jsvalue option"

subsection \<open>Parser table\<close>

definition parse_s :: "jsstring \<Rightarrow> error + jsvalue" where
  "parse_s raw =
     (let trimmed = trim raw in
      if quoted trimmed then
        (case JSON_parse trimmed of Inl e \<Rightarrow> Inl e | Inr s \<Rightarrow> Inr (VString s))
      else Inr (VString trimmed))"

definition parse_n :: "host \<Rightarrow> jsstring \<Rightarrow> error + jsvalue" where
  "parse_n h raw =
     (let trimmed = trim raw in
      if trimmed = [] then Inr VNull
      else
        (let num = Number_of h trimmed in
         if \<not> isFiniteNumber num then Inr VNull else Inr (VNumber num)))"

definition parse_b :: "jsstring \<Rightarrow> error + jsvalue" where
  "parse_b raw =
     (let v = toLowerCase (trim raw) in
      if v = js ''true'' then Inr (VBoolean True)
      else if v = js ''false'' then Inr (VBoolean False)
      else Inl (InvalidBoolean raw))"

definition parse_d :: "host \<Rightarrow> jsstring \<Rightarrow> error + jsvalue" where
  "parse_d h raw =
     (let trimmed = trim raw in
      case (if quoted trimmed then JSON_parse trimmed else Inr trimmed) of
        Inl e \<Rightarrow> Inl e
      | Inr str \<Rightarrow>
          (let dt = Date_of h str in
           if dt = InvalidDate then Inl (InvalidDateText raw) else Inr (VDate dt)))"

definition parse_x :: "jsstring \<Rightarrow> error + jsvalue" where
  "parse_x raw = Inr VNull"

text \<open>
  The members every object inherits from \<^verbatim>\<open>Object.prototype\<close> (ECMAScript 2022,
  including its legacy accessors, as in Node.js and browsers).
\<close>

definition objectPrototypeNames :: "jsstring list" where
  "objectPrototypeNames =
     [js ''constructor'', js ''__defineGetter__'', js ''__defineSetter__'', js ''hasOwnProperty'',
      js ''__lookupGetter__'', js ''__lookupSetter__'', js ''isPrototypeOf'',
      js ''propertyIsEnumerable'', js ''toString'', js ''valueOf'', js ''__proto__'',
      js ''toLocaleString'']"

text \<open>
  \<^verbatim>\<open>ALIAS_TO_PARSER[type]\<close>. The table is an object literal, so the lookup also
  finds what the table inherits. Called as \<^verbatim>\<open>parser(valueRaw)\<close> in strict code,
  hence without a receiver, \<^verbatim>\<open>constructor\<close> (that is \<^verbatim>\<open>Object\<close>) wraps the text in
  a String object, \<^verbatim>\<open>toString\<close> returns the tag of \<^verbatim>\<open>undefined\<close>, \<^verbatim>\<open>isPrototypeOf\<close>
  returns false for a non-object argument; the other inherited functions raise
  a TypeError on the missing receiver, and \<^verbatim>\<open>__proto__\<close> is no function. \<open>None\<close> is
  the \<^verbatim>\<open>undefined\<close> of a failed lookup.
\<close>

definition ALIAS_TO_PARSER :: "host \<Rightarrow> jsstring \<Rightarrow> (jsstring \<Rightarrow> error + jsvalue) option" where
  "ALIAS_TO_PARSER h type =
     (if type = js ''s'' then Some parse_s
      else if type = js ''n'' then Some (parse_n h)
      else if type = js ''b'' then Some parse_b
      else if type = js ''d'' then Some (parse_d h)
      else if type = js ''x'' then Some parse_x
      else if type = js ''constructor'' then Some (\<lambda>raw. Inr (VStringObject raw))
      else if type = js ''toString'' then Some (\<lambda>raw. Inr (VString (js ''[object Undefined]'')))
      else if type = js ''isPrototypeOf'' then Some (\<lambda>raw. Inr (VBoolean False))
      else if type \<in> set objectPrototypeNames then Some (\<lambda>raw. Inl TypeError)
      else None)"

subsection \<open>Objects built by the decoder\<close>

text \<open>
  The decoder fills an object literal: its own properties, in the order of
  their creation, and its prototype. The prototype is \<^verbatim>\<open>Object.prototype\<close> until
  an assignment to the key \<^verbatim>\<open>__proto__\<close> reaches the inherited setter, which
  replaces it when the value is \<^verbatim>\<open>null\<close> or an object and does nothing otherwise.
\<close>

datatype prototype = ObjectPrototype | NullPrototype | InstancePrototype jsvalue

record jsobject =
  props :: "(jsstring \<times> jsvalue) list"
  proto :: prototype

definition emptyObject :: jsobject where
  "emptyObject = \<lparr>props = [], proto = ObjectPrototype\<rparr>"

fun updateOwn :: "jsstring \<Rightarrow> jsvalue \<Rightarrow> (jsstring \<times> jsvalue) list \<Rightarrow> (jsstring \<times> jsvalue) list" where
  "updateOwn key v [] = [(key, v)]"
| "updateOwn key v ((k, w) # ps) = (if k = key then (k, v) # ps else (k, w) # updateOwn key v ps)"

text \<open>
  The own properties of a String object are its \<^verbatim>\<open>length\<close> and its indices, none
  of them writable; a \<^verbatim>\<open>Date\<close> has none.
\<close>

fun readOnlyIn :: "jsvalue \<Rightarrow> jsstring \<Rightarrow> bool" where
  "readOnlyIn (VStringObject s) key = (key = js ''length'' \<or> key \<in> set (map digitsOf [0 ..< length s]))"
| "readOnlyIn v key = False"

text \<open>
  The assignment \<^verbatim>\<open>obj[key] = v\<close> in strict code, for the values the program
  assigns. An own property is overwritten. Otherwise the prototype chain
  decides: \<^verbatim>\<open>__proto__\<close> is the accessor of \<^verbatim>\<open>Object.prototype\<close>, absent only under
  a null prototype; a read-only property of the prototype makes the assignment
  a TypeError; in every other case the object gets a new own property.
\<close>

definition assign :: "jsobject \<Rightarrow> jsstring \<Rightarrow> jsvalue \<Rightarrow> error + jsobject" where
  "assign obj key v =
     (if key \<in> set (map fst (props obj)) then Inr (obj\<lparr>props := updateOwn key v (props obj)\<rparr>)
      else if key = js ''__proto__'' \<and> proto obj \<noteq> NullPrototype then
        (case v of
           VNull \<Rightarrow> Inr (obj\<lparr>proto := NullPrototype\<rparr>)
         | VDate d \<Rightarrow> Inr (obj\<lparr>proto := InstancePrototype v\<rparr>)
         | VStringObject s \<Rightarrow> Inr (obj\<lparr>proto := InstancePrototype v\<rparr>)
         | _ \<Rightarrow> Inr obj)
      else if (case proto obj of InstancePrototype p \<Rightarrow> readOnlyIn p key | _ \<Rightarrow> False)
        then Inl TypeError
      else Inr (obj\<lparr>props := props obj @ [(key, v)]\<rparr>))"

text \<open>
  \<^verbatim>\<open>key in obj\<close> and \<^verbatim>\<open>obj[key]\<close>: an own property first, then the prototype
  chain. Under \<^verbatim>\<open>Object.prototype\<close> the inherited members are functions, except
  \<^verbatim>\<open>__proto__\<close>, whose getter returns the prototype itself.
\<close>

definition fromObjectPrototype :: "jsvalue \<Rightarrow> jsstring \<Rightarrow> jsvalue option" where
  "fromObjectPrototype protoValue key =
     (if key = js ''__proto__'' then Some protoValue
      else if key \<in> set objectPrototypeNames then Some (VUnsupported (js ''function''))
      else None)"

definition inherited :: "host \<Rightarrow> prototype \<Rightarrow> jsstring \<Rightarrow> jsvalue option" where
  "inherited h p key =
     (case p of
        NullPrototype \<Rightarrow> None
      | ObjectPrototype \<Rightarrow> fromObjectPrototype (VUnsupported (js ''object'')) key
      | InstancePrototype v \<Rightarrow>
          (case instanceMember h v key of
             Some m \<Rightarrow> Some m
           | None \<Rightarrow> fromObjectPrototype v key))"

definition hasProperty :: "host \<Rightarrow> jsobject \<Rightarrow> jsstring \<Rightarrow> bool" where
  "hasProperty h obj key = (key \<in> set (map fst (props obj)) \<or> inherited h (proto obj) key \<noteq> None)"

definition getProperty :: "host \<Rightarrow> jsobject \<Rightarrow> jsstring \<Rightarrow> jsvalue" where
  "getProperty h obj key =
     (case map_of (props obj) key of
        Some v \<Rightarrow> v
      | None \<Rightarrow> (case inherited h (proto obj) key of Some v \<Rightarrow> v | None \<Rightarrow> VUndefined))"

subsection \<open>Decoder\<close>

text \<open>The loop of \<^verbatim>\<open>decode\<close> over the rows, \<^verbatim>\<open>result\<close> being what is built so far.\<close>

fun decodeLoop :: "host \<Rightarrow> jsstring list \<Rightarrow> jsobject \<Rightarrow> error + jsobject" where
  "decodeLoop h [] result = Inr result"
| "decodeLoop h (row # rows) result =
     (case splitOutsideQuotes row (js '';'') of
        [keyRaw, typeRaw, valueRaw] \<Rightarrow>
          (let key = trim keyRaw; type = trim typeRaw in
           if key = [] then Inl (EmptyKey row)
           else case ALIAS_TO_PARSER h type of
                  None \<Rightarrow> Inl (UnknownTypeAlias type row)
                | Some parser \<Rightarrow>
                    (case parser valueRaw of
                       Inl e \<Rightarrow> Inl e
                     | Inr v \<Rightarrow>
                         (case assign result key v of
                            Inl e \<Rightarrow> Inl e
                          | Inr result' \<Rightarrow> decodeLoop h rows result')))
      | _ \<Rightarrow> Inl (InvalidRow row))"

definition documentRows :: "jsstring \<Rightarrow> jsstring list" where
  "documentRows str = filter (\<lambda>r. length r > 0) (splitOutsideQuotes str (js ''|''))"

definition decode :: "host \<Rightarrow> jsstring \<Rightarrow> error + jsobject" where
  "decode h str = decodeLoop h (documentRows str) emptyObject"

subsection \<open>Schema validator\<close>

text \<open>
  A schema value is a bare alias or a descriptor whose \<^verbatim>\<open>optional\<close> may be
  missing. A schema lists its own properties in the order of \<^verbatim>\<open>Object.keys\<close>,
  each key once.
\<close>

datatype schemaValue = Bare typeAlias | Described typeAlias "bool option"

fun normalizeSchemaValue :: "schemaValue \<Rightarrow> typeAlias \<times> bool" where
  "normalizeSchemaValue (Bare t) = (t, False)"
| "normalizeSchemaValue (Described t optional) = (t, (case optional of Some b \<Rightarrow> b | None \<Rightarrow> False))"

fun schemaLoop :: "host \<Rightarrow> jsobject \<Rightarrow> (jsstring \<times> schemaValue) list \<Rightarrow> jsobject \<Rightarrow> error + jsobject" where
  "schemaLoop h raw [] out = Inr out"
| "schemaLoop h raw ((k, sv) # schema) out =
     (let (expectedType, optional) = normalizeSchemaValue sv in
      if \<not> hasProperty h raw k then
        (if optional then
           (case assign out k VUndefined of
              Inl e \<Rightarrow> Inl e
            | Inr out' \<Rightarrow> schemaLoop h raw schema out')
         else Inl (MissingRequiredKey k))
      else
        (let val = getProperty h raw k in
         case inferAlias val of
           Inl e \<Rightarrow> Inl e
         | Inr actualAlias \<Rightarrow>
             if actualAlias \<noteq> expectedType then Inl (TypeMismatch k expectedType actualAlias)
             else
               (case assign out k val of
                  Inl e \<Rightarrow> Inl e
                | Inr out' \<Rightarrow> schemaLoop h raw schema out')))"

definition decodeWithSchema :: "host \<Rightarrow> jsstring \<Rightarrow> (jsstring \<times> schemaValue) list \<Rightarrow> error + jsobject" where
  "decodeWithSchema h str schema =
     (case decode h str of
        Inl e \<Rightarrow> Inl e
      | Inr raw \<Rightarrow> schemaLoop h raw schema emptyObject)"

subsection \<open>A reference host\<close>

text \<open>
  A host for evaluating examples: it reads decimal integers as numbers and the
  output format of \<^verbatim>\<open>toISOString\<close> (four-digit years) as dates, and nothing else.
\<close>

fun digitValue :: "jschar \<Rightarrow> nat option" where
  "digitValue c = (if 0x30 \<le> c \<and> c \<le> 0x39 then Some (unat c - 48) else None)"

fun digitsValue :: "nat \<Rightarrow> jsstring \<Rightarrow> nat option" where
  "digitsValue acc [] = Some acc"
| "digitsValue acc (c # cs) =
     (case digitValue c of None \<Rightarrow> None | Some d \<Rightarrow> digitsValue (10 * acc + d) cs)"

function shortest :: "nat \<Rightarrow> int \<Rightarrow> nat \<times> int" where
  "shortest m e = (if m = 0 then (0, 0) else if m mod 10 = 0 then shortest (m div 10) (e + 1) else (m, e))"
  by pat_completeness auto
termination
  by (relation "measure fst") auto

declare shortest.simps [simp del]

definition refNumber :: "jsstring \<Rightarrow> jsnumber" where
  "refNumber text =
     (case text of
        [] \<Rightarrow> Finite 0 0
      | c # cs \<Rightarrow>
          if c = 0x2D then
            (if cs = [] then NaN
             else case digitsValue 0 cs of
                    None \<Rightarrow> NaN
                  | Some n \<Rightarrow> if n = 0 then NegZero else (let (m, e) = shortest n 0 in Finite (- int m) e))
          else
            (case digitsValue 0 text of
               None \<Rightarrow> NaN
             | Some n \<Rightarrow> (let (m, e) = shortest n 0 in Finite (int m) e)))"

definition daysFromCivil :: "int \<Rightarrow> int \<Rightarrow> int \<Rightarrow> int" where
  "daysFromCivil y m d =
     (let y' = (if m \<le> 2 then y - 1 else y);
          era = y' div 400;
          yoe = y' mod 400;
          doy = (153 * (if m > 2 then m - 3 else m + 9) + 2) div 5 + d - 1;
          doe = yoe * 365 + yoe div 4 - yoe div 100 + doy
      in era * 146097 + doe - 719468)"

definition field :: "nat \<Rightarrow> nat \<Rightarrow> jsstring \<Rightarrow> int" where
  "field start len text =
     (case digitsValue 0 (take len (drop start text)) of Some n \<Rightarrow> int n | None \<Rightarrow> 0)"

definition refDate :: "jsstring \<Rightarrow> jsdate" where
  "refDate text =
     (let t = daysFromCivil (field 0 4 text) (field 5 2 text) (field 8 2 text) * 86400000
              + field 11 2 text * 3600000 + field 14 2 text * 60000
              + field 17 2 text * 1000 + field 20 3 text
      in if toISOString (ValidDate t) = Inr text then ValidDate t else InvalidDate)"

definition refHost :: host where
  "refHost = \<lparr>Number_of = refNumber, Date_of = refDate, instanceMember = (\<lambda>v key. None)\<rparr>"

text \<open>Concrete records used in the evaluations below.\<close>

definition scenario :: jsrecord where
  "scenario =
     [(js ''name'', VString (js ''Yanto Kopling'')),
      (js ''age'', VNumber (Finite 27 0)),
      (js ''score'', VNumber NaN),
      (js ''active'', VBoolean True),
      (js ''createdAt'', VDate (ValidDate 1767002400000)),
      (js ''deletedAt'', VNull)]"

definition edgeRecord :: jsrecord where
  "edgeRecord =
     [(js ''d'', VNumber NegInfinity), (js ''a'', VUndefined), (js ''c'', VNull), (js ''b'', VNumber NaN)]"

definition astralRecord :: jsrecord where
  "astralRecord = [([0xFF5E], VNull), ([0xD83D, 0xDE00], VNull)]"

definition orderA :: jsrecord where
  "orderA = [(js ''a'', VNumber (Finite 1 0)), (js ''b'', VBoolean False)]"

definition orderB :: jsrecord where
  "orderB = [(js ''b'', VBoolean False), (js ''a'', VNumber (Finite 1 0))]"

definition scoreRecord :: jsrecord where
  "scoreRecord = [(js ''score'', VNumber NaN)]"

definition scoreSchema :: "(jsstring \<times> schemaValue) list" where
  "scoreSchema = [(js ''score'', Bare N)]"

definition toStringSchema :: "(jsstring \<times> schemaValue) list" where
  "toStringSchema = [(js ''toString'', Described S (Some True))]"

subsection \<open>Vocabulary for the properties of the decoder\<close>

text \<open>
  The aliases of the parser table; one turn of the decoder's loop up to the
  assignment (\<open>parseRow\<close>); a row that is well formed in the plain sense: three
  fields, a non-empty key, an alias of the table and a raw text that its parser
  accepts (\<open>plainRow\<close>). Then the failure conditions for a row as the
  specification lists them (\<open>badRow\<close>: a raw text is an invalid boolean when its
  trimmed, lower-cased form is neither \<^verbatim>\<open>true\<close> nor \<^verbatim>\<open>false\<close>, and an invalid date
  when it cannot be unquoted or the host reads no date from it), the one it
  omits (\<open>badString\<close>: a quoted string text that is no JSON string literal), and
  the rows whose alias names an inherited function that returns a value
  (\<open>returningAlias\<close>).
\<close>

definition tableAliases :: "jsstring list" where
  "tableAliases = [js ''s'', js ''n'', js ''b'', js ''d'', js ''x'']"

definition parseRow :: "host \<Rightarrow> jsstring \<Rightarrow> error + jsstring \<times> jsvalue" where
  "parseRow h row =
     (case splitOutsideQuotes row (js '';'') of
        [keyRaw, typeRaw, valueRaw] \<Rightarrow>
          (let key = trim keyRaw; type = trim typeRaw in
           if key = [] then Inl (EmptyKey row)
           else case ALIAS_TO_PARSER h type of
                  None \<Rightarrow> Inl (UnknownTypeAlias type row)
                | Some parser \<Rightarrow>
                    (case parser valueRaw of Inl e \<Rightarrow> Inl e | Inr v \<Rightarrow> Inr (key, v)))
      | _ \<Rightarrow> Inl (InvalidRow row))"

definition plainRow :: "host \<Rightarrow> jsstring \<Rightarrow> (jsstring \<times> jsvalue) option" where
  "plainRow h row =
     (case splitOutsideQuotes row (js '';'') of
        [keyRaw, typeRaw, valueRaw] \<Rightarrow>
          if trim typeRaw \<in> set tableAliases
          then (case parseRow h row of Inl e \<Rightarrow> None | Inr kv \<Rightarrow> Some kv)
          else None
      | _ \<Rightarrow> None)"

definition protoDoc :: jsstring where
  "protoDoc = js ''__proto__;s;a|__proto__;s;b''"

definition dupDoc :: jsstring where
  "dupDoc = js ''a;n;1|b;b;true|a;s;\"z\"''"


definition invalidBoolean :: "jsstring \<Rightarrow> bool" where
  "invalidBoolean raw = (toLowerCase (trim raw) \<notin> set [js ''true'', js ''false''])"

definition invalidDate :: "host \<Rightarrow> jsstring \<Rightarrow> bool" where
  "invalidDate h raw =
     (let trimmed = trim raw in
      if quoted trimmed
      then (case JSON_parse trimmed of Inl e \<Rightarrow> True | Inr str \<Rightarrow> Date_of h str = InvalidDate)
      else Date_of h trimmed = InvalidDate)"

definition badRow :: "host \<Rightarrow> jsstring \<Rightarrow> bool" where
  "badRow h row =
     (case splitOutsideQuotes row (js '';'') of
        [keyRaw, typeRaw, valueRaw] \<Rightarrow>
          trim keyRaw = [] \<or> trim typeRaw \<notin> set tableAliases
          \<or> (trim typeRaw = js ''b'' \<and> invalidBoolean valueRaw)
          \<or> (trim typeRaw = js ''d'' \<and> invalidDate h valueRaw)
      | _ \<Rightarrow> True)"

definition badString :: "jsstring \<Rightarrow> bool" where
  "badString row =
     (case splitOutsideQuotes row (js '';'') of
        [keyRaw, typeRaw, valueRaw] \<Rightarrow>
          trim typeRaw = js ''s'' \<and> quoted (trim valueRaw) \<and> isl (JSON_parse (trim valueRaw))
      | _ \<Rightarrow> False)"

definition returningAlias :: "jsstring \<Rightarrow> bool" where
  "returningAlias row =
     (case splitOutsideQuotes row (js '';'') of
        [keyRaw, typeRaw, valueRaw] \<Rightarrow>
          trim typeRaw \<in> set [js ''constructor'', js ''toString'', js ''isPrototypeOf'']
      | _ \<Rightarrow> False)"

definition quoteDoc :: jsstring where
  "quoteDoc = js ''a;s;\"''"

definition badDoc :: jsstring where
  "badDoc = js ''a;n;1|b;q;2|c;s;ok''"

definition twoFieldDoc :: jsstring where
  "twoFieldDoc = js ''a;s''"

text \<open>A prototype that is a String object: the only one with read-only properties.\<close>

fun stringProto :: "prototype \<Rightarrow> bool" where
  "stringProto (InstancePrototype (VStringObject s)) = True"
| "stringProto p = False"

subsection \<open>Vocabulary for the properties of the schema validator\<close>

text \<open>
  The field policy as the specification states it, on the own properties of the
  decoded record: an absent field is \<^verbatim>\<open>undefined\<close> when optional and a missing-key
  error when required; a present field passes through when its alias is the
  declared one. \<open>policy\<close> applies it to the schema fields in order and stops at
  the first error.
\<close>

definition fieldOutcome :: "jsobject \<Rightarrow> jsstring \<Rightarrow> schemaValue \<Rightarrow> error + jsvalue" where
  "fieldOutcome raw k sv =
     (let (expectedType, optional) = normalizeSchemaValue sv in
      case map_of (props raw) k of
        None \<Rightarrow> if optional then Inr VUndefined else Inl (MissingRequiredKey k)
      | Some v \<Rightarrow>
          (case inferAlias v of
             Inl e \<Rightarrow> Inl e
           | Inr actualAlias \<Rightarrow>
               if actualAlias \<noteq> expectedType then Inl (TypeMismatch k expectedType actualAlias)
               else Inr v))"

fun policy :: "jsobject \<Rightarrow> (jsstring \<times> schemaValue) list \<Rightarrow> error + (jsstring \<times> jsvalue) list" where
  "policy raw [] = Inr []"
| "policy raw ((k, sv) # schema) =
     (case fieldOutcome raw k sv of
        Inl e \<Rightarrow> Inl e
      | Inr v \<Rightarrow> (case policy raw schema of Inl e \<Rightarrow> Inl e | Inr entries \<Rightarrow> Inr ((k, v) # entries)))"

definition exampleSchema :: "(jsstring \<times> schemaValue) list" where
  "exampleSchema = [(js ''a'', Bare N), (js ''b'', Described S (Some True))]"

definition scenarioDoc :: jsstring where
  "scenarioDoc = js ''active;b;true|age;n;27|createdAt;d;\"2025-12-29T10:00:00.000Z\"|deletedAt;x;|name;s;\"Yanto Kopling\"|score;n;''"

definition readmeSchema :: "(jsstring \<times> schemaValue) list" where
  "readmeSchema =
     [(js ''name'', Bare S), (js ''age'', Bare N), (js ''score'', Bare N), (js ''active'', Bare B),
      (js ''createdAt'', Bare D)]"

subsection \<open>Vocabulary for the round trip\<close>

text \<open>
  A text \<open>passes\<close> a scan when the tokenizer, outside quotes, reads it into the
  current field and is outside quotes again after it. \<open>numChar\<close> are the
  characters of \<^verbatim>\<open>String(n)\<close> for a finite \<open>n\<close>.
\<close>

definition passes :: "jsstring \<Rightarrow> jsstring \<Rightarrow> bool" where
  "passes sepChar t =
     (\<forall>rest out buf. splitLoop sepChar (t @ rest) out buf False False
                       = splitLoop sepChar rest out (buf @ t) False False)"

definition numChar :: "jschar \<Rightarrow> bool" where
  "numChar c = (c \<in> set (js ''0123456789+-.e''))"

text \<open>
  The keys and values for which the round trip is stated. A key must be
  non-empty and unchanged by \<^verbatim>\<open>trim\<close>, be read by the tokenizer as part of one
  field for both separators (\<open>tokenSafe\<close>: no semicolon and no bar outside quotes
  and escapes, the scan outside quotes and escapes at its end), and must not be
  \<^verbatim>\<open>__proto__\<close>. A value must be of a
  supported kind; for a finite number the host must read \<^verbatim>\<open>String(n)\<close> back as
  \<open>n\<close>, and a date must be valid and the host must read its ISO text back as
  the same date. \<open>decoded\<close> is what a value is expected to come back as.
\<close>

definition tokenSafe :: "jsstring \<Rightarrow> bool" where
  "tokenSafe k =
     (scanState (False, False) k = (False, False)
      \<and> effectiveSeparators SEMICOLON (False, False) k = 0
      \<and> effectiveSeparators PIPE (False, False) k = 0)"

definition plainKey :: "jsstring \<Rightarrow> bool" where
  "plainKey k = (k \<noteq> [] \<and> trim k = k \<and> tokenSafe k \<and> k \<noteq> js ''__proto__'')"

fun roundTrips :: "host \<Rightarrow> jsvalue \<Rightarrow> bool" where
  "roundTrips h (VString s) = True"
| "roundTrips h (VBoolean b) = True"
| "roundTrips h VNull = True"
| "roundTrips h (VNumber n) = (\<not> isFiniteNumber n \<or> Number_of h (numberToString n) = n)"
| "roundTrips h (VDate d) = (case toISOString d of Inl e \<Rightarrow> False | Inr text \<Rightarrow> Date_of h text = d)"
| "roundTrips h v = False"

fun decoded :: "jsvalue \<Rightarrow> jsvalue" where
  "decoded (VNumber n) = (if isFiniteNumber n then VNumber n else VNull)"
| "decoded v = v"

definition roundTripRecord :: jsrecord where
  "roundTripRecord =
     [(js ''note'', VString (js ''a;b|c\"d'')),
      (js ''age'', VNumber (Finite 27 0)),
      (js ''score'', VNumber NaN),
      (js ''active'', VBoolean True),
      (js ''createdAt'', VDate (ValidDate 1767002400000)),
      (js ''deletedAt'', VNull)]"

definition semicolonRecord :: jsrecord where
  "semicolonRecord = [(js ''a;b'', VNumber (Finite 1 0))]"

section \<open>Checks of the built-in models\<close>

text \<open>
  The models of \<^verbatim>\<open>String(n)\<close>, \<^verbatim>\<open>toISOString\<close> and \<^verbatim>\<open>JSON.stringify\<close> on values
  whose text is known: plain, fractional and exponent notation; the epoch, a
  leap day, a time before the epoch and a year before 0; a
  string with a quote, a backslash, a line feed, another control character, a
  surrogate pair and a lone surrogate.
\<close>

lemma numberToString_examples:
  "numberToString (Finite 27 0) = js ''27''"
  "numberToString (Finite 15 (-1)) = js ''1.5''"
  "numberToString (Finite (-1) 2) = js ''-100''"
  "numberToString (Finite 1 21) = js ''1e+21''"
  "numberToString (Finite 123 (-9)) = js ''1.23e-7''"
  "numberToString (Finite 1 (-6)) = js ''0.000001''"
  "numberToString NegZero = js ''0''"
  by code_simp+

lemma toISOString_examples:
  "toISOString (ValidDate 0) = Inr (js ''1970-01-01T00:00:00.000Z'')"
  "toISOString (ValidDate 1709164800000) = Inr (js ''2024-02-29T00:00:00.000Z'')"
  "toISOString (ValidDate (-1)) = Inr (js ''1969-12-31T23:59:59.999Z'')"
  "toISOString (ValidDate (-62198755200000)) = Inr (js ''-000001-01-01T00:00:00.000Z'')"
  "toISOString InvalidDate = Inl RangeError"
  by code_simp+

lemma QuoteJSONString_example:
  "QuoteJSONString [0x61, DQUOTE, BACKSLASH, 0x0A, 0x1F, 0xD83D, 0xDE00, 0xD83D]
     = [DQUOTE, 0x61, BACKSLASH, DQUOTE, BACKSLASH, BACKSLASH, BACKSLASH, 0x6E,
        BACKSLASH, 0x75, 0x30, 0x30, 0x31, 0x66, 0xD83D, 0xDE00,
        BACKSLASH, 0x75, 0x64, 0x38, 0x33, 0x64, DQUOTE]"
  by (simp add: QuoteJSONString_def quoteChar_def isLeadingSurrogate_def
      isTrailingSurrogate_def unicodeEscape_def hexDigit_def)

section \<open>Properties of the tokenizer\<close>

lemma join_snoc2: "join sep (out @ [a, b]) = join sep (out @ [a @ sep @ b])"
  by (induction sep out rule: join.induct) simp_all

lemma join_splitLoop:
  "join sepChar (splitLoop sepChar input out buf inQuotes escaped) = join sepChar (out @ [buf @ input])"
proof (induction input arbitrary: out buf inQuotes escaped)
  case Nil
  then show ?case by simp
next
  case (Cons ch rest)
  show ?case
  proof (cases "\<not> escaped \<and> ch \<noteq> BACKSLASH \<and> ch \<noteq> DQUOTE \<and> \<not> inQuotes \<and> [ch] = sepChar")
    case True
    then have "join sepChar (splitLoop sepChar (ch # rest) out buf inQuotes escaped)
        = join sepChar ((out @ [buf]) @ [[] @ rest])"
      using Cons.IH[of "out @ [buf]" "[]" inQuotes escaped] by simp
    also have "\<dots> = join sepChar (out @ [buf @ sepChar @ rest])"
      using join_snoc2[of sepChar out buf rest] by simp
    finally show ?thesis using True by auto
  next
    case False
    then show ?thesis using Cons.IH by auto
  qed
qed

lemma splitLoop_nonempty: "splitLoop sepChar input out buf inQuotes escaped \<noteq> []"
  by (induction input arbitrary: out buf inQuotes escaped) auto

text \<open>
  C9. For every input \<open>s\<close> and separator \<open>c\<close>, \<open>splitOutsideQuotes s c\<close> is a
  non-empty list of fields, and joining the fields with \<open>c\<close> gives \<open>s\<close> back: the
  tokenizer removes only the separators at which it splits and adds nothing.
\<close>

theorem splitOutsideQuotes_join:
  "splitOutsideQuotes s c \<noteq> [] \<and> join c (splitOutsideQuotes s c) = s"
  unfolding splitOutsideQuotes_def
  using join_splitLoop[of c s "[]" "[]" False False] splitLoop_nonempty[of c s "[]" "[]" False False]
  by simp

lemma scanState_Cons: "scanState st (ch # rest) = scanState (scanStep st ch) rest"
  by (simp add: scanState_def)

lemma scanState_Nil: "scanState st [] = st"
  by (simp add: scanState_def)

lemma length_splitLoop:
  assumes "sep \<noteq> BACKSLASH" "sep \<noteq> DQUOTE"
  shows "length (splitLoop [sep] input out buf inQuotes escaped)
       = length out + effectiveSeparators sep (inQuotes, escaped) input + 1"
  using assms
  by (induction input arbitrary: out buf inQuotes escaped) auto

lemma splitLoop_append:
  "splitLoop c (xs @ ys) out buf q e =
     splitLoop c ys (butlast (splitLoop c xs out buf q e)) (last (splitLoop c xs out buf q e))
       (fst (scanState (q, e) xs)) (snd (scanState (q, e) xs))"
  by (induction xs arbitrary: out buf q e) (auto simp: scanState_Cons scanState_Nil)

lemma splitLoop_quoted:
  "\<forall>n \<le> length rest. fst (scanState (True, e) (take n rest))
     \<Longrightarrow> splitLoop c rest out buf True e = out @ [buf @ rest]"
proof (induction rest arbitrary: buf e)
  case Nil
  then show ?case by simp
next
  case (Cons ch rest)
  have one: "fst (scanStep (True, e) ch)"
    using Cons.prems[rule_format, of 1] by (simp add: scanState_Cons scanState_Nil)
  have rest': "\<forall>n \<le> length rest. fst (scanState (scanStep (True, e) ch) (take n rest))"
  proof (intro allI impI)
    fix n assume "n \<le> length rest"
    then show "fst (scanState (scanStep (True, e) ch) (take n rest))"
      using Cons.prems[rule_format, of "Suc n"] by (simp add: scanState_Cons)
  qed
  show ?case
  proof (cases e)
    case True
    with rest' Cons.IH[of False "buf @ [ch]"] show ?thesis by simp
  next
    case False
    with one rest' Cons.IH[of True "buf @ [ch]"] Cons.IH[of False "buf @ [ch]"] show ?thesis
      by (auto split: if_splits)
  qed
qed

lemma staysQuoted_iff: "staysQuoted rest \<longleftrightarrow> (\<forall>n \<le> length rest. fst (scanState (True, False) (take n rest)))"
  by (auto simp: staysQuoted_def less_Suc_eq_le)

text \<open>
  C8 (as amended). The tokenizer is total and returns at least one field. For
  every input and every separator character other than the backslash and the
  double quote, it returns exactly \<open>N + 1\<close> fields, \<open>N\<close> being the number of
  separator occurrences that are unescaped and outside the quote state. For every separator, when a quote is
  opened outside quotes and never closed, nothing after it delimits: the rest of
  the input stays in the field that was current at the quote.
\<close>

theorem splitOutsideQuotes_fields:
  "splitOutsideQuotes s [sep] \<noteq> []
   \<and> (sep \<noteq> BACKSLASH \<and> sep \<noteq> DQUOTE \<longrightarrow>
      length (splitOutsideQuotes s [sep]) = effectiveSeparators sep (False, False) s + 1)
   \<and> (scanState (False, False) pre = (False, False) \<and> staysQuoted rest \<longrightarrow>
      splitOutsideQuotes (pre @ DQUOTE # rest) [sep]
        = butlast (splitOutsideQuotes pre [sep]) @ [last (splitOutsideQuotes pre [sep]) @ DQUOTE # rest])"
proof (intro conjI impI)
  show "splitOutsideQuotes s [sep] \<noteq> []"
    by (simp add: splitOutsideQuotes_def splitLoop_nonempty)
next
  assume "sep \<noteq> BACKSLASH \<and> sep \<noteq> DQUOTE"
  then show "length (splitOutsideQuotes s [sep]) = effectiveSeparators sep (False, False) s + 1"
    using length_splitLoop[of sep s "[]" "[]" False False] by (simp add: splitOutsideQuotes_def)
next
  assume a: "scanState (False, False) pre = (False, False) \<and> staysQuoted rest"
  let ?r = "splitLoop [sep] pre [] [] False False"
  have "splitLoop [sep] (pre @ DQUOTE # rest) [] [] False False
      = splitLoop [sep] (DQUOTE # rest) (butlast ?r) (last ?r) False False"
    using a splitLoop_append[of "[sep]" pre "DQUOTE # rest" "[]" "[]" False False] by simp
  also have "\<dots> = splitLoop [sep] rest (butlast ?r) (last ?r @ [DQUOTE]) True False"
    by simp
  also have "\<dots> = butlast ?r @ [(last ?r @ [DQUOTE]) @ rest]"
    using a splitLoop_quoted[of rest False "[sep]"] by (simp add: staysQuoted_iff)
  finally show "splitOutsideQuotes (pre @ DQUOTE # rest) [sep]
        = butlast (splitOutsideQuotes pre [sep]) @ [last (splitOutsideQuotes pre [sep]) @ DQUOTE # rest]"
    by (simp add: splitOutsideQuotes_def)
qed


theorem splitOutsideQuotes_fields_witness:
  "length (splitOutsideQuotes (js '';a;\"b;c\";'') (js '';'')) = 4
   \<and> splitOutsideQuotes (js ''a;\"b;c'') (js '';'') = [js ''a'', js ''\"b;c'']"
proof -
  have h1: "SEMICOLON \<noteq> BACKSLASH \<and> SEMICOLON \<noteq> DQUOTE" by simp
  have h2: "scanState (False, False) (js ''a;'') = (False, False) \<and> staysQuoted (js ''b;c'')"
    by (simp add: js_def scanState_def staysQuoted_def)
  have e: "effectiveSeparators SEMICOLON (False, False) (js '';a;\"b;c\";'') = 3"
    by (simp add: js_def)
  have p: "splitOutsideQuotes (js ''a;'') [SEMICOLON] = [js ''a'', []]"
    by (simp add: js_def splitOutsideQuotes_def)
  have j: "js '';'' = [SEMICOLON]" "js ''a;\"b;c'' = js ''a;'' @ DQUOTE # js ''b;c''"
    by (simp_all add: js_def)
  from splitOutsideQuotes_fields[of "js '';a;\"b;c\";''" SEMICOLON "js ''a;''" "js ''b;c''"] h1 h2
  show ?thesis unfolding j(1) e p j(2) by (simp add: js_def)
qed

text \<open>
  With the double quote as separator, the input consisting of one double quote
  has one unescaped occurrence outside quotes, yet the tokenizer returns one
  field: the quote branch of the loop is taken before the separator branch.
\<close>

theorem splitOutsideQuotes_fields_counterexample:
  "length (splitOutsideQuotes [DQUOTE] [DQUOTE]) = 1
   \<and> effectiveSeparators DQUOTE (False, False) [DQUOTE] + 1 = 2"
  by (simp add: splitOutsideQuotes_def)

section \<open>Properties of the encoder\<close>

lemma encodeLoop_step:
  "encodeLoop obj (key # keys) rows =
     (if getOwn obj key = VUndefined then encodeLoop obj keys rows
      else case encodeRow key (getOwn obj key) of
             Inl e \<Rightarrow> Inl e
           | Inr row \<Rightarrow> encodeLoop obj keys (rows @ [row]))"
  by (simp add: encodeRow_def Let_def split: sum.splits)

lemma encodeLoop_cong:
  "(\<And>k. getOwn obj k = getOwn obj' k) \<Longrightarrow> encodeLoop obj keys rows = encodeLoop obj' keys rows"
  by (induction keys arbitrary: rows) (simp_all only: encodeLoop_step encodeLoop.simps(1))

lemma encodeLoop_rows:
  "encodeLoop obj keys rows = Inr rows' \<Longrightarrow>
     \<exists>new. rows' = rows @ new \<and>
       map Inr new = map (\<lambda>k. encodeRow k (getOwn obj k)) (filter (\<lambda>k. getOwn obj k \<noteq> VUndefined) keys)"
proof (induction keys arbitrary: rows)
  case Nil
  then show ?case by simp
next
  case (Cons key keys)
  show ?case
  proof (cases "getOwn obj key = VUndefined")
    case True
    with Cons show ?thesis by (simp only: encodeLoop_step) auto
  next
    case False
    with Cons.prems obtain row where row: "encodeRow key (getOwn obj key) = Inr row"
      and rest: "encodeLoop obj keys (rows @ [row]) = Inr rows'"
      by (auto simp only: encodeLoop_step split: sum.splits if_splits)
    from Cons.IH[OF rest] obtain new where "rows' = (rows @ [row]) @ new"
      "map Inr new = map (\<lambda>k. encodeRow k (getOwn obj k)) (filter (\<lambda>k. getOwn obj k \<noteq> VUndefined) keys)"
      by blast
    with False row show ?thesis by (intro exI[of _ "row # new"]) simp
  qed
qed

lemma encodeRow_prefix: "encodeRow k v = Inr row \<Longrightarrow> \<exists>rest. row = k @ js '';'' @ rest"
  by (auto simp: encodeRow_def split: sum.splits)

lemma getOwn_eq:
  assumes "distinct (map fst R)" "distinct (map fst R')" "set R = set R'"
  shows "getOwn R k = getOwn R' k"
  using assms map_of_inject_set[of R R'] by (simp add: getOwn_def)

lemma sorted_keys_eq:
  assumes "distinct (map fst R)" "distinct (map fst R')" "set R = set R'"
  shows "sort (Object_keys R) = sort (Object_keys R')"
proof (rule sorted_distinct_set_unique)
  show "set (sort (Object_keys R)) = set (sort (Object_keys R'))"
    using assms(3) by (simp add: Object_keys_def)
qed (use assms in \<open>simp_all add: Object_keys_def\<close>)


lemma sorted_presentKeys: "sorted (presentKeys R)"
  by (simp add: presentKeys_def sorted_wrt_filter)

lemma codePoints_no_pairs:
  "\<forall>c \<in> set s. \<not> isLeadingSurrogate c \<Longrightarrow> codePoints s = map unat s"
  by (induction s rule: codePoints.induct) auto

lemma map_unat_less: "map unat (a :: jsstring) < map unat b \<longleftrightarrow> a < b"
proof (induction a arbitrary: b)
  case Nil
  then show ?case by (cases b) simp_all
next
  case (Cons x a)
  then show ?case
    by (cases b) (auto simp: word_less_nat_alt word_unat_eq_iff)
qed

lemma code_point_order:
  assumes "\<forall>c \<in> set a \<union> set b. \<not> isLeadingSurrogate c"
  shows "codePoints a \<le> codePoints b \<longleftrightarrow> a \<le> b"
proof -
  have "codePoints a = map unat a" "codePoints b = map unat b"
    using assms by (simp_all add: codePoints_no_pairs)
  moreover have "map unat a = map unat b \<longleftrightarrow> a = b"
    by (auto simp: list_eq_iff_nth_eq word_unat_eq_iff)
  ultimately show ?thesis by (simp add: le_less map_unat_less)
qed

lemma sorted_code_points:
  assumes "\<forall>k \<in> set ks. \<forall>c \<in> set k. \<not> isLeadingSurrogate c" "sorted ks"
  shows "sorted (map codePoints ks)"
  using assms
proof (induction ks)
  case Nil
  then show ?case by simp
next
  case (Cons k ks)
  have "codePoints k \<le> codePoints x" if "x \<in> set ks" for x
  proof -
    from that Cons.prems have "k \<le> x" "\<forall>c \<in> set k \<union> set x. \<not> isLeadingSurrogate c" by auto
    then show ?thesis using code_point_order[of k x] by simp
  qed
  with Cons show ?case by auto
qed

lemma encode_rows:
  assumes "encode R = Inr doc"
  shows "\<exists>rows. doc = join (js ''|'') rows
           \<and> map Inr rows = map (\<lambda>k. encodeRow k (getOwn R k)) (presentKeys R)
           \<and> (\<forall>i < length rows. \<exists>rest. rows ! i = presentKeys R ! i @ js '';'' @ rest)"
proof -
  from assms obtain rows where l: "encodeLoop R (sort (Object_keys R)) [] = Inr rows"
    and d: "doc = join (js ''|'') rows"
    by (auto simp: encode_def split: sum.splits)
  from encodeLoop_rows[OF l] have m: "map Inr rows = map (\<lambda>k. encodeRow k (getOwn R k)) (presentKeys R)"
    by (simp add: presentKeys_def)
  have "\<forall>i < length rows. \<exists>rest. rows ! i = presentKeys R ! i @ js '';'' @ rest"
  proof (intro allI impI)
    fix i assume i: "i < length rows"
    have len: "length rows = length (presentKeys R)" using arg_cong[OF m, of length] by simp
    have "map Inr rows ! i = map (\<lambda>k. encodeRow k (getOwn R k)) (presentKeys R) ! i" using m by simp
    then have "encodeRow (presentKeys R ! i) (getOwn R (presentKeys R ! i)) = Inr (rows ! i)"
      using i len by simp
    then show "\<exists>rest. rows ! i = presentKeys R ! i @ js '';'' @ rest" by (rule encodeRow_prefix)
  qed
  with d m show ?thesis by blast
qed

text \<open>
  C3 (as amended). Two records with the same key-value pairs, whatever the order
  of insertion, encode to the same string; and the rows of an encoding are in
  the order of their keys, which is the lexicographic order of UTF-16 code
  units: row \<open>i\<close> begins with the \<open>i\<close>-th present key and a semicolon. When no
  key contains a leading surrogate, this is the order of code points.
\<close>

theorem encode_deterministic:
  "(distinct (map fst R) \<and> distinct (map fst R') \<and> set R = set R' \<longrightarrow> encode R = encode R')
   \<and> (encode R = Inr doc \<longrightarrow>
        sorted (presentKeys R) \<and>
        (\<exists>rows. doc = join (js ''|'') rows
           \<and> map Inr rows = map (\<lambda>k. encodeRow k (getOwn R k)) (presentKeys R)
           \<and> (\<forall>i < length rows. \<exists>rest. rows ! i = presentKeys R ! i @ js '';'' @ rest)))
   \<and> ((\<forall>k \<in> set (presentKeys R). \<forall>c \<in> set k. \<not> isLeadingSurrogate c) \<longrightarrow>
        sorted (map codePoints (presentKeys R)))"
proof (intro conjI impI)
  assume a: "distinct (map fst R) \<and> distinct (map fst R') \<and> set R = set R'"
  then have "encodeLoop R (sort (Object_keys R)) [] = encodeLoop R' (sort (Object_keys R')) []"
    using sorted_keys_eq[of R R'] encodeLoop_cong[of R R' "sort (Object_keys R')" "[]"] getOwn_eq[of R R']
    by simp
  then show "encode R = encode R'" by (simp add: encode_def)
next
  assume "encode R = Inr doc"
  then show "sorted (presentKeys R)" by (simp add: sorted_presentKeys)
next
  assume "encode R = Inr doc"
  then show "\<exists>rows. doc = join (js ''|'') rows
           \<and> map Inr rows = map (\<lambda>k. encodeRow k (getOwn R k)) (presentKeys R)
           \<and> (\<forall>i < length rows. \<exists>rest. rows ! i = presentKeys R ! i @ js '';'' @ rest)"
    by (rule encode_rows)
next
  assume "\<forall>k \<in> set (presentKeys R). \<forall>c \<in> set k. \<not> isLeadingSurrogate c"
  then show "sorted (map codePoints (presentKeys R))"
    using sorted_presentKeys by (rule sorted_code_points)
qed

lemma encode_orderA: "encode orderA = Inr (js ''a;n;1|b;b;false'')"
  by code_simp

theorem encode_deterministic_witness:
  "encode orderA = encode orderB \<and> encode orderB = Inr (js ''a;n;1|b;b;false'')
   \<and> sorted (presentKeys orderA) \<and> sorted (map codePoints (presentKeys orderA))"
proof -
  have h: "distinct (map fst orderA) \<and> distinct (map fst orderB) \<and> set orderA = set orderB"
    by (auto simp: orderA_def orderB_def js_def)
  have s: "\<forall>k \<in> set (presentKeys orderA). \<forall>c \<in> set k. \<not> isLeadingSurrogate c"
    by code_simp
  from encode_deterministic[of orderA orderB "js ''a;n;1|b;b;false''"] h s encode_orderA
  show ?thesis by simp
qed

text \<open>
  The order of the rows is not the order of code points: the key U+FF5E sorts
  after the key U+1F600, whose first code unit is \<open>0xD83D\<close>.
\<close>

theorem encode_code_point_order_counterexample:
  "encode astralRecord = Inr ([0xD83D, 0xDE00] @ js '';x;|'' @ [0xFF5E] @ js '';x;'')
   \<and> codePoints [0xFF5E] < codePoints [0xD83D, 0xDE00]"
proof (rule conjI)
  show "encode astralRecord = Inr ([0xD83D, 0xDE00] @ js '';x;|'' @ [0xFF5E] @ js '';x;'')"
    by code_simp
  show "codePoints [0xFF5E] < codePoints [0xD83D, 0xDE00]"
    by (simp add: isLeadingSurrogate_def isTrailingSurrogate_def)
qed

text \<open>
  C4. The literal scenario: the record with name, age 27, score NaN, active,
  createdAt 2025-12-29T10:00:00Z and deletedAt null encodes to exactly the
  string of the specification, keys sorted.
\<close>

theorem encode_literal_scenario:
  "encode scenario = Inr (js ''active;b;true|age;n;27|createdAt;d;\"2025-12-29T10:00:00.000Z\"|deletedAt;x;|name;s;\"Yanto Kopling\"|score;n;'')"
  by code_simp

lemma getOwn_edge: "\<forall>(k, v) \<in> set obj. edgeState v \<Longrightarrow> edgeState (getOwn obj k)"
  by (auto simp: getOwn_def split: option.splits dest: map_of_SomeD)

lemma encodeRow_edge:
  "edgeState v \<Longrightarrow> v \<noteq> VUndefined \<Longrightarrow> encodeRow k v = Inr (k @ (if v = VNull then js '';x;'' else js '';n;''))"
  by (cases v) (auto simp: encodeRow_def js_def)

lemma encodeLoop_edge:
  "\<forall>(k, v) \<in> set obj. edgeState v \<Longrightarrow>
   encodeLoop obj keys rows =
     Inr (rows @ map (\<lambda>k. k @ (if getOwn obj k = VNull then js '';x;'' else js '';n;''))
                  (filter (\<lambda>k. getOwn obj k \<noteq> VUndefined) keys))"
proof (induction keys arbitrary: rows)
  case Nil
  then show ?case by simp
next
  case (Cons key keys)
  then show ?case
    using getOwn_edge[of obj key] encodeRow_edge[of "getOwn obj key" key]
    by (simp only: encodeLoop_step) auto
qed

text \<open>
  C5. Edge cases of the encoder, for every key \<open>k\<close>. When its value is
  \<^verbatim>\<open>undefined\<close>, \<open>k\<close> is not among the keys that get a row and the loop passes it
  by; when it is a non-finite number its row is \<open>k;n;\<close>; when it is \<^verbatim>\<open>null\<close> its
  row is \<open>k;x;\<close>; in all three cases the loop goes on. The rows of an encoding
  are those of the present keys, and a record with only such fields never fails
  to encode.
\<close>

theorem encode_edge_states:
  "(getOwn obj k = VUndefined \<longrightarrow>
        k \<notin> set (presentKeys obj) \<and> encodeLoop obj (k # keys) rows = encodeLoop obj keys rows)
   \<and> (\<not> isFiniteNumber n \<longrightarrow>
        encodeRow k (VNumber n) = Inr (k @ js '';n;'')
        \<and> (getOwn obj k = VNumber n \<longrightarrow>
              encodeLoop obj (k # keys) rows = encodeLoop obj keys (rows @ [k @ js '';n;''])))
   \<and> encodeRow k VNull = Inr (k @ js '';x;'')
   \<and> (getOwn obj k = VNull \<longrightarrow>
        encodeLoop obj (k # keys) rows = encodeLoop obj keys (rows @ [k @ js '';x;'']))
   \<and> (encode obj = Inr doc \<longrightarrow>
        (\<exists>rs. doc = join (js ''|'') rs
           \<and> map Inr rs = map (\<lambda>k. encodeRow k (getOwn obj k)) (presentKeys obj)))
   \<and> ((\<forall>(k, v) \<in> set obj. edgeState v) \<longrightarrow>
        encode obj = Inr (join (js ''|'')
          (map (\<lambda>k. k @ (if getOwn obj k = VNull then js '';x;'' else js '';n;'')) (presentKeys obj))))"
proof (intro conjI impI)
  assume "\<forall>(k, v) \<in> set obj. edgeState v"
  then show "encode obj = Inr (join (js ''|'')
          (map (\<lambda>k. k @ (if getOwn obj k = VNull then js '';x;'' else js '';n;'')) (presentKeys obj)))"
    using encodeLoop_edge[of obj "sort (Object_keys obj)" "[]"] by (simp add: encode_def presentKeys_def)
next
  assume "encode obj = Inr doc"
  from encode_rows[OF this]
  show "\<exists>rs. doc = join (js ''|'') rs
           \<and> map Inr rs = map (\<lambda>k. encodeRow k (getOwn obj k)) (presentKeys obj)"
    by blast
next
  assume "getOwn obj k = VUndefined"
  then show "k \<notin> set (presentKeys obj)" by (simp add: presentKeys_def)
qed (simp_all add: js_def encodeRow_def)

theorem encode_edge_states_witness:
  "encode edgeRecord = Inr (js ''b;n;|c;x;|d;n;'')
   \<and> js ''a'' \<notin> set (presentKeys edgeRecord)
   \<and> encodeLoop edgeRecord [js ''a'', js ''b''] [] = encodeLoop edgeRecord [js ''b''] []"
proof -
  have h: "\<forall>(k, v) \<in> set edgeRecord. edgeState v" by (simp add: edgeRecord_def)
  have u: "getOwn edgeRecord (js ''a'') = VUndefined" by code_simp
  have p: "join (js ''|'')
          (map (\<lambda>k. k @ (if getOwn edgeRecord k = VNull then js '';x;'' else js '';n;'')) (presentKeys edgeRecord))
      = js ''b;n;|c;x;|d;n;''" by code_simp
  from encode_edge_states[of edgeRecord "js ''a''" "[js ''b'']" "[]" NaN "js ''b;n;|c;x;|d;n;''"] h u p
  show ?thesis by simp
qed

section \<open>Properties of the decoder\<close>

lemma decodeLoop_step:
  "decodeLoop h (row # rows) result =
     (case parseRow h row of
        Inl e \<Rightarrow> Inl e
      | Inr (key, v) \<Rightarrow>
          (case assign result key v of
             Inl e \<Rightarrow> Inl e
           | Inr result' \<Rightarrow> decodeLoop h rows result'))"
  by (simp add: parseRow_def Let_def split: list.splits option.splits sum.splits)

lemma map_of_snoc:
  "key \<notin> set (map fst ps) \<Longrightarrow> map_of (ps @ [(key, v)]) = (map_of ps)(key \<mapsto> v)"
  by (induction ps) (auto simp: fun_eq_iff)

lemma map_of_updateOwn: "map_of (updateOwn key v ps) = (map_of ps)(key \<mapsto> v)"
  by (induction ps) (auto simp: fun_eq_iff)

lemma assign_ok:
  assumes "\<not> stringProto (proto obj)" "\<forall>s. v \<noteq> VStringObject s"
  shows "\<exists>obj'. assign obj key v = Inr obj' \<and> \<not> stringProto (proto obj')
           \<and> (\<forall>k. k \<noteq> js ''__proto__'' \<longrightarrow> map_of (props obj') k = ((map_of (props obj))(key \<mapsto> v)) k)"
proof (cases "key \<in> set (map fst (props obj))")
  case True
  then show ?thesis using assms by (simp add: assign_def map_of_updateOwn)
next
  case False
  have ro: "\<not> (case proto obj of InstancePrototype p \<Rightarrow> readOnlyIn p key | _ \<Rightarrow> False)"
  proof (cases "proto obj")
    case (InstancePrototype p)
    with assms(1) show ?thesis by (cases p) simp_all
  qed simp_all
  show ?thesis
  proof (cases "key = js ''__proto__'' \<and> proto obj \<noteq> NullPrototype")
    case True
    with False assms show ?thesis by (cases v) (auto simp: assign_def)
  next
    case other: False
    with False ro have "assign obj key v = Inr (obj\<lparr>props := props obj @ [(key, v)]\<rparr>)"
      by (auto simp: assign_def)
    moreover have "map_of (props obj @ [(key, v)]) = (map_of (props obj))(key \<mapsto> v)"
      using False by (rule map_of_snoc)
    ultimately show ?thesis using assms(1) by simp
  qed
qed

lemma parse_s_kind: "parse_s raw = Inr v \<Longrightarrow> \<exists>s. v = VString s"
  by (auto simp: parse_s_def Let_def split: if_splits sum.splits)

lemma parse_n_kind: "parse_n h raw = Inr v \<Longrightarrow> v = VNull \<or> (\<exists>n. v = VNumber n \<and> isFiniteNumber n)"
  by (auto simp: parse_n_def Let_def split: if_splits)

lemma parse_b_kind: "parse_b raw = Inr v \<Longrightarrow> \<exists>b. v = VBoolean b"
  by (auto simp: parse_b_def Let_def split: if_splits)

lemma parse_d_kind: "parse_d h raw = Inr v \<Longrightarrow> \<exists>d. v = VDate d \<and> d \<noteq> InvalidDate"
  by (auto simp: parse_d_def Let_def split: if_splits sum.splits)

lemma parse_x_kind: "parse_x raw = Inr v \<Longrightarrow> v = VNull"
  by (simp add: parse_x_def)

lemma table_parser:
  assumes "type \<in> set tableAliases"
  shows "ALIAS_TO_PARSER h type = Some parse_s \<or> ALIAS_TO_PARSER h type = Some (parse_n h)
       \<or> ALIAS_TO_PARSER h type = Some parse_b \<or> ALIAS_TO_PARSER h type = Some (parse_d h)
       \<or> ALIAS_TO_PARSER h type = Some parse_x"
  using assms by (auto simp: tableAliases_def ALIAS_TO_PARSER_def)

lemma table_parser_value:
  assumes "type \<in> set tableAliases" "ALIAS_TO_PARSER h type = Some parser" "parser raw = Inr v"
  shows "v \<noteq> VStringObject s"
  using table_parser[OF assms(1), of h] assms(2,3)
  by (auto dest: parse_s_kind parse_n_kind parse_b_kind parse_d_kind parse_x_kind)

lemma plainRow_parseRow: "plainRow h row = Some kv \<Longrightarrow> parseRow h row = Inr kv"
  by (auto simp: plainRow_def split: list.splits if_splits sum.splits)

lemma plainRow_value:
  assumes "plainRow h row = Some (k, v)"
  shows "parseRow h row = Inr (k, v) \<and> (\<forall>s. v \<noteq> VStringObject s)"
proof
  show p: "parseRow h row = Inr (k, v)" using assms by (rule plainRow_parseRow)
  from assms obtain keyRaw typeRaw valueRaw where
    f: "splitOutsideQuotes row (js '';'') = [keyRaw, typeRaw, valueRaw]" and t: "trim typeRaw \<in> set tableAliases"
    by (auto simp: plainRow_def split: list.splits if_splits)
  from p f obtain parser where "ALIAS_TO_PARSER h (trim typeRaw) = Some parser" "parser valueRaw = Inr v"
    by (auto simp: parseRow_def Let_def split: if_splits option.splits sum.splits)
  with t show "\<forall>s. v \<noteq> VStringObject s" using table_parser_value by blast
qed

lemma decodeLoop_plain:
  assumes "\<forall>row \<in> set rows. plainRow h row \<noteq> None" "\<not> stringProto (proto result)"
  shows "\<exists>obj. decodeLoop h rows result = Inr obj
           \<and> (\<forall>k. k \<noteq> js ''__proto__'' \<longrightarrow>
                 map_of (props obj) k = (map_of (props result) ++ map_of (rev (List.map_filter (plainRow h) rows))) k)"
  using assms
proof (induction rows arbitrary: result)
  case Nil
  then show ?case by (simp add: List.map_filter_simps)
next
  case (Cons row rows)
  from Cons.prems(1) obtain key v where pr: "plainRow h row = Some (key, v)" by auto
  from plainRow_value[OF pr] have pv: "parseRow h row = Inr (key, v)" and nv: "\<forall>s. v \<noteq> VStringObject s"
    by auto
  from assign_ok[OF Cons.prems(2) nv, of key] obtain result' where
    a: "assign result key v = Inr result'" and sp: "\<not> stringProto (proto result')"
    and m: "\<forall>k. k \<noteq> js ''__proto__'' \<longrightarrow> map_of (props result') k = ((map_of (props result))(key \<mapsto> v)) k"
    by blast
  from Cons.IH[OF _ sp] Cons.prems(1) obtain obj where
    d: "decodeLoop h rows result' = Inr obj"
    and mo: "\<forall>k. k \<noteq> js ''__proto__'' \<longrightarrow>
                 map_of (props obj) k = (map_of (props result') ++ map_of (rev (List.map_filter (plainRow h) rows))) k"
    by auto
  have "decodeLoop h (row # rows) result = Inr obj"
    by (simp only: decodeLoop_step pv a d sum.case prod.case)
  moreover have "\<forall>k. k \<noteq> js ''__proto__'' \<longrightarrow>
      map_of (props obj) k = (map_of (props result) ++ map_of (rev (List.map_filter (plainRow h) (row # rows)))) k"
  proof (intro allI impI)
    fix k assume k: "k \<noteq> js ''__proto__''"
    show "map_of (props obj) k = (map_of (props result) ++ map_of (rev (List.map_filter (plainRow h) (row # rows)))) k"
      using mo[rule_format, OF k] m[rule_format, OF k] pr
      by (auto simp: List.map_filter_simps map_add_def split: option.splits)
  qed
  ultimately show ?case by blast
qed

text \<open>
  Repeated keys. A document whose rows are all well formed decodes without
  error, repeated keys included, and for every key other than \<^verbatim>\<open>__proto__\<close> the
  result holds the value parsed from the last row with that key (and nothing
  when no row has the key): later rows overwrite earlier ones.
\<close>

theorem decode_duplicate_keys:
  "(\<forall>row \<in> set (documentRows str). plainRow h row \<noteq> None) \<longrightarrow>
     (\<exists>obj. decode h str = Inr obj
        \<and> (\<forall>k. k \<noteq> js ''__proto__'' \<longrightarrow>
              map_of (props obj) k = map_of (rev (List.map_filter (plainRow h) (documentRows str))) k))"
proof
  assume a: "\<forall>row \<in> set (documentRows str). plainRow h row \<noteq> None"
  have "\<not> stringProto (proto emptyObject)" by (simp add: emptyObject_def)
  from decodeLoop_plain[OF a this]
  show "\<exists>obj. decode h str = Inr obj
        \<and> (\<forall>k. k \<noteq> js ''__proto__'' \<longrightarrow>
              map_of (props obj) k = map_of (rev (List.map_filter (plainRow h) (documentRows str))) k)"
    by (simp add: decode_def emptyObject_def)
qed


theorem decode_duplicate_keys_witness:
  "\<exists>obj. decode refHost dupDoc = Inr obj \<and> map_of (props obj) (js ''a'') = Some (VString (js ''z''))"
proof -
  have h: "\<forall>row \<in> set (documentRows dupDoc). plainRow refHost row \<noteq> None" by code_simp
  have m: "map_of (rev (List.map_filter (plainRow refHost) (documentRows dupDoc))) (js ''a'') = Some (VString (js ''z''))"
    by code_simp
  have k: "js ''a'' \<noteq> js ''__proto__''" by (simp add: js_def)
  from decode_duplicate_keys[of dupDoc refHost] h m k show ?thesis by auto
qed

text \<open>
  C10. The claim is that a document with repeated keys decodes and that the
  result maps such a key to the value of its last row. For two well-formed rows
  with the key \<^verbatim>\<open>__proto__\<close> the program does otherwise: the assignments reach the
  inherited setter, which ignores a string, and the result has no such property.
\<close>

theorem decode_duplicate_proto:
  "decode refHost protoDoc = Inr emptyObject
   \<and> List.map_filter (plainRow refHost) (documentRows protoDoc)
       = [(js ''__proto__'', VString (js ''a'')), (js ''__proto__'', VString (js ''b''))]"
  by code_simp

lemma parseRow_value:
  assumes "parseRow h row = Inr (k, v)" "\<not> returningAlias row"
  shows "v \<noteq> VStringObject s"
proof -
  from assms(1) obtain keyRaw typeRaw valueRaw parser where
    f: "splitOutsideQuotes row (js '';'') = [keyRaw, typeRaw, valueRaw]"
    and p: "ALIAS_TO_PARSER h (trim typeRaw) = Some parser" and v: "parser valueRaw = Inr v"
    by (auto simp: parseRow_def Let_def split: list.splits if_splits option.splits sum.splits)
  from assms(2) f have r: "trim typeRaw \<noteq> js ''constructor''" "trim typeRaw \<noteq> js ''toString''"
    "trim typeRaw \<noteq> js ''isPrototypeOf''"
    by (auto simp: returningAlias_def)
  show ?thesis
  proof (cases "trim typeRaw \<in> set tableAliases")
    case True
    then show ?thesis using p v by (rule table_parser_value)
  next
    case False
    with p r have "parser = (\<lambda>raw. Inl TypeError)"
      by (auto simp: ALIAS_TO_PARSER_def tableAliases_def split: if_splits)
    with v show ?thesis by simp
  qed
qed

lemma decodeLoop_isl:
  assumes "\<forall>row \<in> set rows. \<not> returningAlias row" "\<not> stringProto (proto result)"
  shows "isl (decodeLoop h rows result) \<longleftrightarrow> (\<exists>row \<in> set rows. isl (parseRow h row))"
  using assms
proof (induction rows arbitrary: result)
  case Nil
  then show ?case by simp
next
  case (Cons row rows)
  show ?case
  proof (cases "parseRow h row")
    case (Inl e)
    then show ?thesis by (simp only: decodeLoop_step) simp
  next
    case (Inr kv)
    obtain key v where kv: "kv = (key, v)" by (cases kv)
    from Inr kv Cons.prems(1) have nv: "\<forall>s. v \<noteq> VStringObject s"
      using parseRow_value[of h row key v] by simp
    from assign_ok[OF Cons.prems(2) nv, of key] obtain result' where
      a: "assign result key v = Inr result'" and sp: "\<not> stringProto (proto result')" by blast
    have "decodeLoop h (row # rows) result = decodeLoop h rows result'"
      by (simp only: decodeLoop_step Inr kv a sum.case prod.case)
    with Cons.IH[OF _ sp] Cons.prems(1) Inr show ?thesis by simp
  qed
qed

lemma parse_n_total: "\<not> isl (parse_n h raw)"
  by (simp add: parse_n_def Let_def)

lemma parse_x_total: "\<not> isl (parse_x raw)"
  by (simp add: parse_x_def)

lemma parse_s_isl: "isl (parse_s raw) \<longleftrightarrow> quoted (trim raw) \<and> isl (JSON_parse (trim raw))"
  by (auto simp: parse_s_def Let_def split: sum.splits)

lemma parse_b_isl: "isl (parse_b raw) \<longleftrightarrow> invalidBoolean raw"
  by (simp add: parse_b_def invalidBoolean_def Let_def)

lemma parse_d_isl: "isl (parse_d h raw) \<longleftrightarrow> invalidDate h raw"
  by (simp add: parse_d_def invalidDate_def Let_def split: sum.splits)

lemma isl_case_sum: "isl (case x of Inl e \<Rightarrow> Inl e | Inr v \<Rightarrow> Inr (f v)) = isl x"
  by (cases x) simp_all

lemma parseRow_isl:
  assumes "\<not> returningAlias row"
  shows "isl (parseRow h row) \<longleftrightarrow> badRow h row \<or> badString row"
proof (cases "\<exists>keyRaw typeRaw valueRaw. splitOutsideQuotes row (js '';'') = [keyRaw, typeRaw, valueRaw]")
  case False
  then have "parseRow h row = Inl (InvalidRow row)" "badRow h row"
    by (auto simp: parseRow_def badRow_def split: list.splits)
  then show ?thesis by simp
next
  case True
  then obtain keyRaw typeRaw valueRaw where
    f: "splitOutsideQuotes row (js '';'') = [keyRaw, typeRaw, valueRaw]" by blast
  show ?thesis
  proof (cases "trim keyRaw = []")
    case True
    then show ?thesis using f by (simp add: parseRow_def badRow_def)
  next
    case key: False
    show ?thesis
    proof (cases "trim typeRaw \<in> set tableAliases")
      case True
      then consider "trim typeRaw = js ''s''" | "trim typeRaw = js ''n''" | "trim typeRaw = js ''b''"
        | "trim typeRaw = js ''d''" | "trim typeRaw = js ''x''"
        by (auto simp: tableAliases_def)
      then show ?thesis
      proof cases
        case 1
        then have "ALIAS_TO_PARSER h (trim typeRaw) = Some parse_s" by (simp add: ALIAS_TO_PARSER_def)
        then show ?thesis using f key True 1
          by (simp add: parseRow_def badRow_def badString_def isl_case_sum parse_s_isl js_def)
      next
        case 2
        then have "ALIAS_TO_PARSER h (trim typeRaw) = Some (parse_n h)" by (simp add: ALIAS_TO_PARSER_def js_def)
        then show ?thesis using f key True 2
          by (simp add: parseRow_def badRow_def badString_def isl_case_sum parse_n_total js_def)
      next
        case 3
        then have "ALIAS_TO_PARSER h (trim typeRaw) = Some parse_b" by (simp add: ALIAS_TO_PARSER_def js_def)
        then show ?thesis using f key True 3
          by (simp add: parseRow_def badRow_def badString_def isl_case_sum parse_b_isl js_def)
      next
        case 4
        then have "ALIAS_TO_PARSER h (trim typeRaw) = Some (parse_d h)" by (simp add: ALIAS_TO_PARSER_def js_def)
        then show ?thesis using f key True 4
          by (simp add: parseRow_def badRow_def badString_def isl_case_sum parse_d_isl js_def)
      next
        case 5
        then have "ALIAS_TO_PARSER h (trim typeRaw) = Some parse_x" by (simp add: ALIAS_TO_PARSER_def js_def)
        then show ?thesis using f key True 5
          by (simp add: parseRow_def badRow_def badString_def isl_case_sum parse_x_total js_def)
      qed
    next
      case False
      from assms f have r: "trim typeRaw \<noteq> js ''constructor''" "trim typeRaw \<noteq> js ''toString''"
        "trim typeRaw \<noteq> js ''isPrototypeOf''"
        by (auto simp: returningAlias_def)
      from False r have "ALIAS_TO_PARSER h (trim typeRaw) = Some (\<lambda>raw. Inl TypeError)
          \<or> ALIAS_TO_PARSER h (trim typeRaw) = None"
        by (auto simp: ALIAS_TO_PARSER_def tableAliases_def)
      then have "isl (parseRow h row)" using f key by (auto simp: parseRow_def)
      moreover have "badRow h row" using f False by (simp add: badRow_def)
      ultimately show ?thesis by simp
    qed
  qed
qed

text \<open>
  C6 (as amended). Let the rows of a document be what the split on the bar leaves
  after dropping empty rows, and let no row have one of the aliases
  \<^verbatim>\<open>constructor\<close>, \<^verbatim>\<open>toString\<close>, \<^verbatim>\<open>isPrototypeOf\<close>. Then \<open>decode\<close> fails if and only
  if some row does not split into exactly three fields, or has an empty trimmed
  key, or a trimmed alias outside s, n, b, d, x, or a raw text that the parser
  of b or d rejects, or, under s, a quoted raw text that is no JSON string
  literal. A failure is the whole result. The two-field row \<open>a;s\<close> is rejected
  as an invalid row.
\<close>

theorem decode_fails_iff:
  "((\<forall>row \<in> set (documentRows str). \<not> returningAlias row) \<longrightarrow>
      (isl (decode h str) \<longleftrightarrow> (\<exists>row \<in> set (documentRows str). badRow h row \<or> badString row)))
   \<and> decode h twoFieldDoc = Inl (InvalidRow twoFieldDoc)"
proof (intro conjI impI)
  assume a: "\<forall>row \<in> set (documentRows str). \<not> returningAlias row"
  have "\<not> stringProto (proto emptyObject)" by (simp add: emptyObject_def)
  from decodeLoop_isl[OF a this, of h] a
  show "isl (decode h str) \<longleftrightarrow> (\<exists>row \<in> set (documentRows str). badRow h row \<or> badString row)"
    by (simp add: decode_def parseRow_isl)
next
  have rows: "documentRows twoFieldDoc = [twoFieldDoc]" by code_simp
  have parts: "splitOutsideQuotes twoFieldDoc (js '';'') = [js ''a'', js ''s'']" by code_simp
  show "decode h twoFieldDoc = Inl (InvalidRow twoFieldDoc)"
    unfolding decode_def rows by (simp add: parts)
qed

theorem decode_fails_iff_witness:
  "isl (decode refHost badDoc) \<and> badRow refHost (js ''b;q;2'') \<and> js ''b;q;2'' \<in> set (documentRows badDoc)"
proof -
  have h: "\<forall>row \<in> set (documentRows badDoc). \<not> returningAlias row" by code_simp
  have b: "badRow refHost (js ''b;q;2'')" by code_simp
  have r: "js ''b;q;2'' \<in> set (documentRows badDoc)" by code_simp
  from decode_fails_iff[of badDoc refHost] h b r show ?thesis by blast
qed

text \<open>
  The row \<open>a;s;"\<close> has three fields, a key and the alias s, and none of the
  failure conditions of the specification; \<^verbatim>\<open>JSON.parse\<close> raises on its value.
\<close>

theorem decode_fails_iff_counterexample:
  "decode refHost quoteDoc = Inl SyntaxError \<and> documentRows quoteDoc = [quoteDoc]
   \<and> \<not> badRow refHost quoteDoc"
  by code_simp

section \<open>The round trip\<close>

lemma passes_Nil: "passes c []"
  by (simp add: passes_def)

lemma passes_append: "passes c a \<Longrightarrow> passes c b \<Longrightarrow> passes c (a @ b)"
  by (simp add: passes_def)

lemma passes_plain:
  "\<forall>ch \<in> set t. ch \<noteq> BACKSLASH \<and> ch \<noteq> DQUOTE \<and> [ch] \<noteq> c \<Longrightarrow> passes c t"
  unfolding passes_def
proof (induction t)
  case Nil
  then show ?case by simp
next
  case (Cons ch t)
  then show ?case by simp
qed

lemma hexDigit_all: "\<forall>d \<in> set [0 ..< 16]. hexDigit d \<noteq> BACKSLASH \<and> hexDigit d \<noteq> DQUOTE"
  by code_simp

lemma hexDigit_plain: "d < 16 \<Longrightarrow> hexDigit d \<noteq> BACKSLASH \<and> hexDigit d \<noteq> DQUOTE"
  using hexDigit_all by simp

lemma unat_div_4096: "unat (c :: jschar) div 4096 < 16"
  using unsigned_less[of c, where ?'a = nat] by simp

lemma inQuotes_unicodeEscape:
  "splitLoop c (unicodeEscape x @ rest) out buf True False = splitLoop c rest out (buf @ unicodeEscape x) True False"
  using hexDigit_plain[OF unat_div_4096[of x]] hexDigit_plain[of "unat x div 256 mod 16"]
    hexDigit_plain[of "unat x div 16 mod 16"] hexDigit_plain[of "unat x mod 16"]
  by (simp add: unicodeEscape_def)

lemma inQuotes_quoteChar:
  "splitLoop c (quoteChar x @ rest) out buf True False = splitLoop c rest out (buf @ quoteChar x) True False"
  by (simp add: quoteChar_def inQuotes_unicodeEscape)

lemma surrogate_plain:
  "isLeadingSurrogate x \<or> isTrailingSurrogate x \<Longrightarrow> x \<noteq> BACKSLASH \<and> x \<noteq> DQUOTE"
  by (auto simp: isLeadingSurrogate_def isTrailingSurrogate_def)

lemma inQuotes_quoteChars:
  "splitLoop c (quoteChars s @ rest) out buf True False = splitLoop c rest out (buf @ quoteChars s) True False"
proof (induction s arbitrary: buf rule: quoteChars.induct)
  case 1
  then show ?case by simp
next
  case (2 x)
  then show ?case by (simp add: inQuotes_quoteChar)
next
  case (3 x y rest')
  show ?case
  proof (cases "isLeadingSurrogate x \<and> isTrailingSurrogate y")
    case True
    then have "x \<noteq> BACKSLASH \<and> x \<noteq> DQUOTE" "y \<noteq> BACKSLASH \<and> y \<noteq> DQUOTE"
      using surrogate_plain by blast+
    with True "3.IH"(1)[of "buf @ [x, y]"] show ?thesis by simp
  next
    case False
    then have q: "quoteChars (x # y # rest') = quoteChar x @ quoteChars (y # rest')" by auto
    have "splitLoop c (quoteChars (x # y # rest') @ rest) out buf True False
        = splitLoop c (quoteChar x @ (quoteChars (y # rest') @ rest)) out buf True False"
      by (simp only: q append_assoc)
    also have "\<dots> = splitLoop c (quoteChars (y # rest') @ rest) out (buf @ quoteChar x) True False"
      by (rule inQuotes_quoteChar)
    also have "\<dots> = splitLoop c rest out ((buf @ quoteChar x) @ quoteChars (y # rest')) True False"
      using False by (intro "3.IH"(2)) simp
    finally show ?thesis by (simp only: q append_assoc)
  qed
qed

lemma passes_QuoteJSONString: "passes c (QuoteJSONString s)"
  unfolding passes_def QuoteJSONString_def
  using inQuotes_quoteChars[of c s] by simp

lemma hexValue_all: "\<forall>d \<in> set [0 ..< 16]. hexValue (hexDigit d) = Some d"
  by code_simp

lemma hexValue_hexDigit: "d < 16 \<Longrightarrow> hexValue (hexDigit d) = Some d"
  using hexValue_all by simp

lemma unat_jschar_bound: "unat (c :: jschar) < 65536"
  using unsigned_less[of c, where ?'a = nat] by simp

lemma nibbles: 
  fixes n :: nat
  shows "n div 4096 * 4096 + n div 256 mod 16 * 256 + n div 16 mod 16 * 16 + n mod 16 = n"
proof -
  define A B C D E F where "A = n div 4096" and "B = n div 256 mod 16" and "C = n div 16 mod 16"
    and "D = n mod 16" and "E = n div 256" and "F = n div 16"
  have a: "F * 16 + D = n" unfolding F_def D_def by simp
  have "n div 16 div 16 = n div 256" by (simp add: div_mult2_eq[symmetric])
  then have b: "E * 16 + C = F" unfolding E_def C_def F_def
    using div_mult_mod_eq[of "n div 16" 16] by simp
  have "n div 256 div 16 = n div 4096" by (simp add: div_mult2_eq[symmetric])
  then have c: "A * 16 + B = E" unfolding A_def B_def E_def
    using div_mult_mod_eq[of "n div 256" 16] by simp
  have "A * 4096 + B * 256 + C * 16 + D = n" using a b c by linarith
  then show ?thesis unfolding A_def B_def C_def D_def .
qed

lemma hex_recompose:
  "of_nat (unat x div 4096 * 4096 + unat x div 256 mod 16 * 256 + unat x div 16 mod 16 * 16 + unat x mod 16) = (x :: jschar)"
  by (simp only: nibbles) simp

lemma surrogate_literal:
  "isLeadingSurrogate x \<or> isTrailingSurrogate x \<Longrightarrow> x \<noteq> BACKSLASH \<and> x \<noteq> DQUOTE \<and> \<not> x < 0x20"
  by (auto simp: isLeadingSurrogate_def isTrailingSurrogate_def word_le_nat_alt word_less_nat_alt)

lemma parse_unicodeEscape:
  "parseStringChars (unicodeEscape x @ rest) = consResult x (parseStringChars rest)"
proof -
  have a: "unat x div 4096 < 16" using unat_jschar_bound[of x] by simp
  show ?thesis
    using hexValue_hexDigit[OF a] hexValue_hexDigit[of "unat x div 256 mod 16"]
      hexValue_hexDigit[of "unat x div 16 mod 16"] hexValue_hexDigit[of "unat x mod 16"]
    by (simp add: unicodeEscape_def hex_recompose del: of_nat_add of_nat_mult)
qed

lemma parse_quoteChar:
  "parseStringChars (quoteChar x @ rest) = consResult x (parseStringChars rest)"
proof -
  consider "x = 0x08" | "x = 0x09" | "x = 0x0A" | "x = 0x0C" | "x = 0x0D" | "x = DQUOTE" | "x = BACKSLASH"
    | "x \<notin> {0x08, 0x09, 0x0A, 0x0C, 0x0D, DQUOTE, BACKSLASH}" "x < 0x20 \<or> isLeadingSurrogate x \<or> isTrailingSurrogate x"
    | "x \<notin> {0x08, 0x09, 0x0A, 0x0C, 0x0D, DQUOTE, BACKSLASH}" "\<not> (x < 0x20 \<or> isLeadingSurrogate x \<or> isTrailingSurrogate x)"
    by blast
  then show ?thesis
  proof cases
    case 8
    then have "quoteChar x = unicodeEscape x" by (simp add: quoteChar_def)
    then show ?thesis by (simp only: parse_unicodeEscape)
  next
    case 9
    then have "quoteChar x = [x]" by (simp add: quoteChar_def)
    with 9 show ?thesis by simp
  qed (simp_all add: quoteChar_def unescapeChar_def)
qed

lemma parse_quoteChars: "parseStringChars (quoteChars s @ [DQUOTE]) = Inr s"
proof (induction s rule: quoteChars.induct)
  case 1
  then show ?case by simp
next
  case (2 x)
  then show ?case by (simp add: parse_quoteChar)
next
  case (3 x y rest)
  show ?case
  proof (cases "isLeadingSurrogate x \<and> isTrailingSurrogate y")
    case True
    with surrogate_literal[of x] surrogate_literal[of y] "3.IH"(1) show ?thesis by simp
  next
    case False
    then have q: "quoteChars (x # y # rest) = quoteChar x @ quoteChars (y # rest)" by auto
    have "parseStringChars (quoteChars (x # y # rest) @ [DQUOTE])
        = parseStringChars (quoteChar x @ (quoteChars (y # rest) @ [DQUOTE]))"
      by (simp only: q append_assoc)
    also have "\<dots> = consResult x (parseStringChars (quoteChars (y # rest) @ [DQUOTE]))"
      by (rule parse_quoteChar)
    also have "\<dots> = Inr (x # y # rest)" using "3.IH"(2) False by simp
    finally show ?thesis .
  qed
qed

lemma JSON_parse_QuoteJSONString: "JSON_parse (QuoteJSONString s) = Inr s"
  by (simp add: JSON_parse_def QuoteJSONString_def parse_quoteChars)

lemma trim_id: "t \<noteq> [] \<Longrightarrow> \<not> isWhiteSpace (hd t) \<Longrightarrow> \<not> isWhiteSpace (last t) \<Longrightarrow> trim t = t"
proof -
  assume a: "t \<noteq> []" "\<not> isWhiteSpace (hd t)" "\<not> isWhiteSpace (last t)"
  then have "dropWhile isWhiteSpace t = t" by (cases t) simp_all
  moreover have "dropWhile isWhiteSpace (rev t) = rev t"
    using a by (cases "rev t") (simp_all add: last_rev[symmetric] hd_rev)
  ultimately show ?thesis by (simp add: trim_def)
qed

lemma DQUOTE_not_space: "\<not> isWhiteSpace DQUOTE"
  by (simp add: isWhiteSpace_def)

lemma trim_QuoteJSONString: "trim (QuoteJSONString s) = QuoteJSONString s"
  by (rule trim_id) (simp_all add: QuoteJSONString_def DQUOTE_not_space)

lemma quoted_QuoteJSONString: "quoted (QuoteJSONString s)"
  by (simp add: quoted_def QuoteJSONString_def)

lemma parse_s_QuoteJSONString: "parse_s (QuoteJSONString s) = Inr (VString s)"
  by (simp add: parse_s_def trim_QuoteJSONString quoted_QuoteJSONString JSON_parse_QuoteJSONString)

lemma numChar_plain:
  "numChar c \<Longrightarrow> \<not> isWhiteSpace c \<and> c \<noteq> BACKSLASH \<and> c \<noteq> DQUOTE \<and> c \<noteq> SEMICOLON \<and> c \<noteq> PIPE"
  by (auto simp: numChar_def js_def isWhiteSpace_def)

lemma digit_numChar_all: "\<forall>d \<in> set [0 ..< 10]. numChar (of_nat (48 + d))"
  by code_simp

lemma digit_numChar: "d < 10 \<Longrightarrow> numChar (of_nat (48 + d))"
  using digit_numChar_all by simp

lemma digitsOf_numChar: "list_all numChar (digitsOf n)"
proof (induction n rule: digitsOf.induct)
  case (1 n)
  show ?case
  proof (cases "n < 10")
    case True
    then show ?thesis using digit_numChar[of n] by (subst digitsOf.simps) simp
  next
    case False
    then show ?thesis using 1 digit_numChar[of "n mod 10"] by (subst digitsOf.simps) simp
  qed
qed

lemma digitsOf_nonempty: "digitsOf n \<noteq> []"
  by (subst digitsOf.simps) simp

lemma list_all_take: "list_all P xs \<Longrightarrow> list_all P (take n xs)"
  by (auto simp: list_all_iff dest: in_set_takeD)

lemma list_all_drop: "list_all P xs \<Longrightarrow> list_all P (drop n xs)"
  by (auto simp: list_all_iff dest: in_set_dropD)

lemma list_all_replicate: "P x \<Longrightarrow> list_all P (replicate n x)"
  by (simp add: list_all_iff)

lemma numChar_consts:
  "numChar 0x30" "list_all numChar (js ''.'')" "list_all numChar (js ''0.'')" "list_all numChar (js ''e'')"
  "list_all numChar (js ''-'')" "list_all numChar (js ''+'')" "list_all numChar (js ''0'')"
  by (simp_all add: numChar_def js_def)

lemma formatDecimal_numChar:
  assumes "list_all numChar ds"
  shows "list_all numChar (formatDecimal ds n)"
  using assms
  by (auto simp: formatDecimal_def Let_def numChar_consts list_all_take list_all_drop
      list_all_replicate digitsOf_numChar)

lemma formatDecimal_nonempty: "ds \<noteq> [] \<Longrightarrow> formatDecimal ds n \<noteq> []"
  by (auto simp: formatDecimal_def Let_def js_def)

lemma numberToString_numChar: "isFiniteNumber n \<Longrightarrow> list_all numChar (numberToString n)"
  by (cases n) (auto simp: numChar_consts formatDecimal_numChar digitsOf_numChar)

lemma numberToString_nonempty: "isFiniteNumber n \<Longrightarrow> numberToString n \<noteq> []"
  by (cases n) (auto simp: js_def formatDecimal_nonempty digitsOf_nonempty)

lemma numChar_passes: "list_all numChar t \<Longrightarrow> c = js '';'' \<or> c = js ''|'' \<Longrightarrow> passes c t"
  by (rule passes_plain) (auto simp: list_all_iff js_def dest: numChar_plain)

lemma numChar_trim: "list_all numChar t \<Longrightarrow> trim t = t"
proof (cases "t = []")
  case True
  then show ?thesis by (simp add: trim_def)
next
  case False
  assume "list_all numChar t"
  with False have "numChar (hd t)" "numChar (last t)" by (simp_all add: list_all_iff)
  with False show ?thesis by (intro trim_id) (simp_all add: numChar_plain)
qed

lemma split_at_separator:
  "sep \<noteq> BACKSLASH \<Longrightarrow> sep \<noteq> DQUOTE \<Longrightarrow>
     splitLoop [sep] (sep # rest) out buf False False = splitLoop [sep] rest (out @ [buf]) [] False False"
  by simp

lemma passes_end: "passes c t \<Longrightarrow> splitLoop c t out buf False False = out @ [buf @ t]"
  using passes_def[of c t] by (metis append_Nil2 splitLoop.simps(1))

lemma split_three:
  assumes "passes (js '';'') k" "passes (js '';'') a" "passes (js '';'') v"
  shows "splitOutsideQuotes (k @ js '';'' @ a @ js '';'' @ v) (js '';'') = [k, a, v]"
proof -
  have s: "js '';'' = [SEMICOLON]" by (simp add: js_def)
  have "splitLoop [SEMICOLON] (k @ SEMICOLON # a @ SEMICOLON # v) [] [] False False
      = splitLoop [SEMICOLON] (SEMICOLON # a @ SEMICOLON # v) [] k False False"
    using assms(1) unfolding s passes_def by simp
  also have "\<dots> = splitLoop [SEMICOLON] (a @ SEMICOLON # v) [k] [] False False"
    by simp
  also have "\<dots> = splitLoop [SEMICOLON] (SEMICOLON # v) [k] a False False"
    using assms(2) unfolding s passes_def by simp
  also have "\<dots> = splitLoop [SEMICOLON] v [k, a] [] False False"
    by simp
  also have "\<dots> = [k, a, v]"
    using passes_end[OF assms(3), of "[k, a]" "[]"] unfolding s by simp
  finally show ?thesis by (simp add: splitOutsideQuotes_def s)
qed

lemma split_rows:
  assumes "\<forall>r \<in> set (r0 # rs). passes (js ''|'') r"
  shows "splitLoop (js ''|'') (join (js ''|'') (r0 # rs)) out buf False False = out @ (buf @ r0) # rs"
  using assms
proof (induction rs arbitrary: r0 out buf)
  case Nil
  then show ?case using passes_end[of "js ''|''" r0 out buf] by simp
next
  case (Cons r1 rs)
  have s: "js ''|'' = [PIPE]" by (simp add: js_def)
  have "splitLoop (js ''|'') (join (js ''|'') (r0 # r1 # rs)) out buf False False
      = splitLoop [PIPE] (r0 @ PIPE # join [PIPE] (r1 # rs)) out buf False False"
    by (simp add: s)
  also have "\<dots> = splitLoop [PIPE] (PIPE # join [PIPE] (r1 # rs)) out (buf @ r0) False False"
    using Cons.prems unfolding s passes_def by simp
  also have "\<dots> = splitLoop [PIPE] (join [PIPE] (r1 # rs)) (out @ [buf @ r0]) [] False False"
    by simp
  also have "\<dots> = (out @ [buf @ r0]) @ ([] @ r1) # rs"
    using Cons.IH[of r1 "out @ [buf @ r0]" "[]"] Cons.prems unfolding s by simp
  finally show ?case by simp
qed

lemma documentRows_join:
  assumes "\<forall>r \<in> set rows. passes (js ''|'') r \<and> r \<noteq> []"
  shows "documentRows (join (js ''|'') rows) = rows"
proof (cases rows)
  case Nil
  then show ?thesis by (simp add: documentRows_def splitOutsideQuotes_def)
next
  case (Cons r0 rs)
  with assms have "splitOutsideQuotes (join (js ''|'') rows) (js ''|'') = rows"
    using split_rows[of r0 rs "[]" "[]"] by (simp add: splitOutsideQuotes_def)
  moreover have "filter (\<lambda>r. length r > 0) rows = rows" using assms by (simp add: filter_id_conv)
  ultimately show ?thesis by (simp add: documentRows_def)
qed

lemma splitLoop_no_separator:
  assumes "sep \<noteq> BACKSLASH" "sep \<noteq> DQUOTE" "effectiveSeparators sep (q, e) t = 0"
  shows "splitLoop [sep] (t @ rest) out buf q e
       = splitLoop [sep] rest out (buf @ t) (fst (scanState (q, e) t)) (snd (scanState (q, e) t))"
  using assms(3)
proof (induction t arbitrary: buf q e)
  case Nil
  then show ?case by (simp add: scanState_Nil)
next
  case (Cons ch t)
  from Cons.prems have eff: "\<not> (ch = sep \<and> \<not> e \<and> \<not> q)"
    and rest: "effectiveSeparators sep (scanStep (q, e) ch) t = 0"
    by (auto split: if_splits)
  obtain q' e' where st: "scanStep (q, e) ch = (q', e')" by (cases "scanStep (q, e) ch")
  have step: "splitLoop [sep] ((ch # t) @ rest) out buf q e = splitLoop [sep] (t @ rest) out (buf @ [ch]) q' e'"
    using eff st assms(1,2) by (auto split: if_splits)
  from rest st have "effectiveSeparators sep (q', e') t = 0" by simp
  from Cons.IH[OF this, of "buf @ [ch]"] step st show ?case
    by (simp add: scanState_Cons)
qed

lemma tokenSafe_passes:
  assumes "tokenSafe k" "c = js '';'' \<or> c = js ''|''"
  shows "passes c k"
proof -
  from assms(2) consider "c = [SEMICOLON]" | "c = [PIPE]" by (auto simp: js_def)
  then show ?thesis
  proof cases
    case 1
    then show ?thesis using assms(1) splitLoop_no_separator[of SEMICOLON False False k]
      by (simp add: passes_def tokenSafe_def)
  next
    case 2
    then show ?thesis using assms(1) splitLoop_no_separator[of PIPE False False k]
      by (simp add: passes_def tokenSafe_def)
  qed
qed

lemma plainKey_passes: "plainKey k \<Longrightarrow> c = js '';'' \<or> c = js ''|'' \<Longrightarrow> passes c k"
  by (rule tokenSafe_passes) (simp_all add: plainKey_def)

lemma plainKey_trim: "plainKey k \<Longrightarrow> trim k = k"
  by (simp add: plainKey_def)

lemma aliasText_passes: "c = js '';'' \<or> c = js ''|'' \<Longrightarrow> passes c (aliasText a)"
  by (rule passes_plain) (cases a; auto simp: js_def)

lemma aliasText_trim: "trim (aliasText a) = aliasText a"
  by (rule trim_id) (cases a; simp add: js_def isWhiteSpace_def)+

lemma semicolon_passes_bar: "passes (js ''|'') (js '';'')"
  by (rule passes_plain) (simp add: js_def)

lemma ALIAS_TO_PARSER_aliasText:
  "ALIAS_TO_PARSER h (aliasText a) =
     Some (case a of S \<Rightarrow> parse_s | N \<Rightarrow> parse_n h | B \<Rightarrow> parse_b | D \<Rightarrow> parse_d h | X \<Rightarrow> parse_x)"
  by (cases a) (simp_all add: ALIAS_TO_PARSER_def js_def)

lemma bool_text:
  "parse_b (js ''true'') = Inr (VBoolean True)" "parse_b (js ''false'') = Inr (VBoolean False)"
  "list_all (\<lambda>c. c \<noteq> BACKSLASH \<and> c \<noteq> DQUOTE \<and> c \<noteq> SEMICOLON \<and> c \<noteq> PIPE) (js ''true'')"
  "list_all (\<lambda>c. c \<noteq> BACKSLASH \<and> c \<noteq> DQUOTE \<and> c \<noteq> SEMICOLON \<and> c \<noteq> PIPE) (js ''false'')"
  by code_simp+

lemma bool_passes: "c = js '';'' \<or> c = js ''|'' \<Longrightarrow> passes c (if b then js ''true'' else js ''false'')"
  using bool_text(3,4) by (intro passes_plain) (auto simp: list_all_iff js_def)

lemma field_roundtrip:
  assumes "roundTrips h v"
  shows "\<exists>a ev. inferAlias v = Inr a \<and> encodeValue a k v = Inr ev
           \<and> passes (js '';'') ev \<and> passes (js ''|'') ev
           \<and> (case a of S \<Rightarrow> parse_s | N \<Rightarrow> parse_n h | B \<Rightarrow> parse_b | D \<Rightarrow> parse_d h | X \<Rightarrow> parse_x) ev
               = Inr (decoded v)"
proof (cases v)
  case (VString s)
  then show ?thesis
    by (simp add: passes_QuoteJSONString parse_s_QuoteJSONString)
next
  case (VNumber n)
  show ?thesis
  proof (cases "isFiniteNumber n")
    case True
    with assms VNumber have r: "Number_of h (numberToString n) = n" by simp
    from True have t: "trim (numberToString n) = numberToString n" "numberToString n \<noteq> []"
      by (simp_all add: numChar_trim numberToString_numChar numberToString_nonempty)
    have "parse_n h (numberToString n) = Inr (VNumber n)"
      using True by (simp add: parse_n_def t r)
    then show ?thesis using True VNumber
      by (simp add: numChar_passes numberToString_numChar)
  next
    case False
    then show ?thesis using VNumber
      by (simp add: passes_Nil parse_n_def trim_def)
  qed
next
  case (VBoolean b)
  then show ?thesis
    using bool_passes[of "js '';''" b] bool_passes[of "js ''|''" b]
    by (cases b) (simp_all add: bool_text(1,2))
next
  case (VDate d)
  with assms obtain isoText where t: "toISOString d = Inr isoText" and r: "Date_of h isoText = d"
    by (auto split: sum.splits)
  from t have "d \<noteq> InvalidDate" by (cases d) simp_all
  then have "parse_d h (QuoteJSONString isoText) = Inr (VDate d)"
    by (simp add: parse_d_def trim_QuoteJSONString quoted_QuoteJSONString JSON_parse_QuoteJSONString r)
  then show ?thesis using VDate t by (simp add: passes_QuoteJSONString)
next
  case VNull
  then show ?thesis by (simp add: passes_Nil parse_x_def)
qed (use assms in simp_all)

lemma row_roundtrip:
  assumes "plainKey k" "roundTrips h v"
  shows "\<exists>row. encodeRow k v = Inr row \<and> row \<noteq> [] \<and> passes (js ''|'') row
           \<and> parseRow h row = Inr (k, decoded v)"
proof -
  from field_roundtrip[OF assms(2), of k] obtain a ev where
    ia: "inferAlias v = Inr a" and ev: "encodeValue a k v = Inr ev"
    and p1: "passes (js '';'') ev" and p2: "passes (js ''|'') ev"
    and pv: "(case a of S \<Rightarrow> parse_s | N \<Rightarrow> parse_n h | B \<Rightarrow> parse_b | D \<Rightarrow> parse_d h | X \<Rightarrow> parse_x) ev
               = Inr (decoded v)"
    by blast
  let ?row = "k @ js '';'' @ aliasText a @ js '';'' @ ev"
  have e: "encodeRow k v = Inr ?row" by (simp add: encodeRow_def ia ev)
  have ne: "?row \<noteq> []" using assms(1) by (simp add: plainKey_def)
  have pb: "passes (js ''|'') ?row"
    by (intro passes_append plainKey_passes[OF assms(1)] semicolon_passes_bar aliasText_passes p2) simp_all
  have f: "splitOutsideQuotes ?row (js '';'') = [k, aliasText a, ev]"
    by (intro split_three plainKey_passes[OF assms(1)] aliasText_passes p1) simp_all
  have kne: "k \<noteq> []" using assms(1) by (simp add: plainKey_def)
  have "parseRow h ?row = Inr (k, decoded v)"
    by (simp add: parseRow_def f plainKey_trim[OF assms(1)] aliasText_trim kne
        ALIAS_TO_PARSER_aliasText pv)
  with e ne pb show ?thesis by blast
qed

lemma encodeLoop_all:
  assumes "\<forall>k \<in> set ks. getOwn R k \<noteq> VUndefined \<and> encodeRow k (getOwn R k) = Inr (rowOf k)"
  shows "encodeLoop R ks rows = Inr (rows @ map rowOf ks)"
  using assms
proof (induction ks arbitrary: rows)
  case Nil
  then show ?case by simp
next
  case (Cons k ks)
  then show ?case by (simp only: encodeLoop_step) simp
qed

lemma assign_fresh:
  assumes "k \<notin> set (map fst ps)" "k \<noteq> js ''__proto__''"
  shows "assign \<lparr>props = ps, proto = ObjectPrototype\<rparr> k v = Inr \<lparr>props = ps @ [(k, v)], proto = ObjectPrototype\<rparr>"
  using assms by (simp add: assign_def)

lemma decodeLoop_all:
  assumes "distinct ks" "set ks \<inter> set (map fst ps) = {}"
    "\<forall>k \<in> set ks. k \<noteq> js ''__proto__'' \<and> parseRow h (rowOf k) = Inr (k, val k)"
  shows "decodeLoop h (map rowOf ks) \<lparr>props = ps, proto = ObjectPrototype\<rparr>
       = Inr \<lparr>props = ps @ map (\<lambda>k. (k, val k)) ks, proto = ObjectPrototype\<rparr>"
  using assms
proof (induction ks arbitrary: ps)
  case Nil
  then show ?case by simp
next
  case (Cons k ks)
  from Cons.prems have a: "assign \<lparr>props = ps, proto = ObjectPrototype\<rparr> k (val k)
      = Inr \<lparr>props = ps @ [(k, val k)], proto = ObjectPrototype\<rparr>"
    by (intro assign_fresh) auto
  from Cons.prems have p: "parseRow h (rowOf k) = Inr (k, val k)" by simp
  have "decodeLoop h (map rowOf (k # ks)) \<lparr>props = ps, proto = ObjectPrototype\<rparr>
      = decodeLoop h (map rowOf ks) \<lparr>props = ps @ [(k, val k)], proto = ObjectPrototype\<rparr>"
    by (simp only: list.map decodeLoop_step p a sum.case prod.case)
  also have "\<dots> = Inr \<lparr>props = (ps @ [(k, val k)]) @ map (\<lambda>k. (k, val k)) ks, proto = ObjectPrototype\<rparr>"
    using Cons.prems by (intro Cons.IH) auto
  finally show ?case by simp
qed

lemma map_of_keys: "map_of (map (\<lambda>k. (k, f k)) ks) k = (if k \<in> set ks then Some (f k) else None)"
  by (induction ks) auto

text \<open>
  C1 (as amended). Let \<open>R\<close> be a flat record, each key once, whose keys are
  non-empty, unchanged by \<^verbatim>\<open>trim\<close>, read by the tokenizer as part of one field
  (no semicolon or bar outside quotes and escapes, quotes and escapes closed),
  and other than \<^verbatim>\<open>__proto__\<close>, and whose values are strings, booleans, null,
  numbers and valid dates that the host reads back from their text. Then \<open>encode\<close> succeeds and \<open>decode\<close> of its result is an ordinary object
  with exactly the fields of \<open>R\<close>, in key order, each with its value, except
  that NaN and the infinities come back as null. Strings are unrestricted: one
  that contains semicolon, bar and double quote comes back as it was.
\<close>

theorem decode_encode:
  "distinct (map fst R) \<and> (\<forall>(k, v) \<in> set R. plainKey k \<and> roundTrips h v) \<longrightarrow>
     (\<exists>doc obj. encode R = Inr doc \<and> decode h doc = Inr obj
        \<and> proto obj = ObjectPrototype
        \<and> props obj = map (\<lambda>k. (k, decoded (getOwn R k))) (sort (Object_keys R))
        \<and> (\<forall>k. map_of (props obj) k = map_option decoded (map_of R k)))"
proof
  assume a: "distinct (map fst R) \<and> (\<forall>(k, v) \<in> set R. plainKey k \<and> roundTrips h v)"
  let ?ks = "sort (Object_keys R)"
  define rowOf where "rowOf k = (case encodeRow k (getOwn R k) of Inr row \<Rightarrow> row | Inl e \<Rightarrow> [])" for k
  have own: "(k, getOwn R k) \<in> set R" if "k \<in> set ?ks" for k
  proof -
    from that obtain v where "(k, v) \<in> set R" by (auto simp: Object_keys_def)
    with a have "map_of R k = Some v" by simp
    then show ?thesis using \<open>(k, v) \<in> set R\<close> by (simp add: getOwn_def)
  qed
  have row: "getOwn R k \<noteq> VUndefined \<and> encodeRow k (getOwn R k) = Inr (rowOf k) \<and> rowOf k \<noteq> []
      \<and> passes (js ''|'') (rowOf k) \<and> k \<noteq> js ''__proto__''
      \<and> parseRow h (rowOf k) = Inr (k, decoded (getOwn R k))" if "k \<in> set ?ks" for k
  proof -
    from own[OF that] a have pk: "plainKey k" and rt: "roundTrips h (getOwn R k)" by auto
    from row_roundtrip[OF pk rt] obtain r where "encodeRow k (getOwn R k) = Inr r" "r \<noteq> []"
      "passes (js ''|'') r" "parseRow h r = Inr (k, decoded (getOwn R k))" by blast
    then show ?thesis using pk rt by (auto simp: rowOf_def plainKey_def)
  qed
  have e: "encode R = Inr (join (js ''|'') (map rowOf ?ks))"
    using encodeLoop_all[of ?ks R rowOf "[]"] row by (simp add: encode_def)
  have r: "documentRows (join (js ''|'') (map rowOf ?ks)) = map rowOf ?ks"
    using row by (intro documentRows_join) auto
  have dk: "distinct ?ks" using a by (simp add: Object_keys_def)
  have d: "decode h (join (js ''|'') (map rowOf ?ks))
      = Inr \<lparr>props = map (\<lambda>k. (k, decoded (getOwn R k))) ?ks, proto = ObjectPrototype\<rparr>"
    unfolding decode_def r emptyObject_def
    using decodeLoop_all[of ?ks "[]" h rowOf "\<lambda>k. decoded (getOwn R k)"] dk row by simp
  have m: "map_of (map (\<lambda>k. (k, decoded (getOwn R k))) ?ks) k = map_option decoded (map_of R k)" for k
  proof (cases "k \<in> set ?ks")
    case True
    from own[OF True] a have "map_of R k = Some (getOwn R k)" by simp
    with True show ?thesis by (simp add: map_of_keys)
  next
    case False
    then have "map_of R k = None" by (simp add: Object_keys_def map_of_eq_None_iff)
    with False show ?thesis by (simp add: map_of_keys)
  qed
  show "\<exists>doc obj. encode R = Inr doc \<and> decode h doc = Inr obj
        \<and> proto obj = ObjectPrototype
        \<and> props obj = map (\<lambda>k. (k, decoded (getOwn R k))) (sort (Object_keys R))
        \<and> (\<forall>k. map_of (props obj) k = map_option decoded (map_of R k))"
    using e d m by simp
qed

theorem decode_encode_witness:
  "\<exists>doc obj. encode roundTripRecord = Inr doc \<and> decode refHost doc = Inr obj
      \<and> map_of (props obj) (js ''note'') = Some (VString (js ''a;b|c\"d''))
      \<and> map_of (props obj) (js ''score'') = Some VNull"
proof -
  have h1: "distinct (map fst roundTripRecord)" by code_simp
  have h2: "\<forall>(k, v) \<in> set roundTripRecord. plainKey k \<and> roundTrips refHost v" by code_simp
  have m: "map_option decoded (map_of roundTripRecord (js ''note'')) = Some (VString (js ''a;b|c\"d''))"
    "map_option decoded (map_of roundTripRecord (js ''score'')) = Some VNull"
    by code_simp+
  from decode_encode[of roundTripRecord refHost] h1 h2 m show ?thesis by auto
qed

text \<open>
  A key with a semicolon: the encoder writes it as it is, and the decoder finds
  four fields in the row.
\<close>

theorem decode_encode_counterexample:
  "encode semicolonRecord = Inr (js ''a;b;n;1'')
   \<and> decode refHost (js ''a;b;n;1'') = Inl (InvalidRow (js ''a;b;n;1''))"
  by code_simp

section \<open>Properties of the schema validator\<close>

lemma trim_Nil: "trim [] = []"
  by (simp add: trim_def)

text \<open>
  C2. The claim is that a record whose field \<open>score\<close> is NaN, encoded and then
  decoded with a schema declaring \<open>score\<close> as \<open>n\<close>, passes validation with \<open>score\<close>
  null. The program does otherwise, for every host: the field decodes to
  \<^verbatim>\<open>null\<close>, \<^verbatim>\<open>inferAlias\<close> maps \<^verbatim>\<open>null\<close> to \<open>x\<close>, and the comparison with the
  declared \<open>n\<close> raises the type mismatch.
\<close>

theorem decodeWithSchema_nonfinite_mismatch:
  "encode scoreRecord = Inr (js ''score;n;'')
   \<and> decodeWithSchema h (js ''score;n;'') scoreSchema = Inl (TypeMismatch (js ''score'') N X)"
proof (rule conjI)
  show "encode scoreRecord = Inr (js ''score;n;'')" by code_simp
  have rows: "documentRows (js ''score;n;'') = [js ''score;n;'']" by code_simp
  have parts: "splitOutsideQuotes (js ''score;n;'') (js '';'') = [js ''score'', js ''n'', []]" by code_simp
  have key: "trim (js ''score'') = js ''score''" "trim (js ''n'') = js ''n''" by code_simp+
  have p: "ALIAS_TO_PARSER h (js ''n'') = Some (parse_n h)" by (simp add: ALIAS_TO_PARSER_def js_def)
  have v: "parse_n h [] = Inr VNull" by (simp add: parse_n_def trim_Nil)
  have a: "assign emptyObject (js ''score'') VNull = Inr \<lparr>props = [(js ''score'', VNull)], proto = ObjectPrototype\<rparr>"
    by (simp add: assign_def emptyObject_def js_def)
  have ne: "js ''score'' \<noteq> []" by (simp add: js_def)
  have d: "decode h (js ''score;n;'') = Inr \<lparr>props = [(js ''score'', VNull)], proto = ObjectPrototype\<rparr>"
    unfolding decode_def rows by (simp add: parts key p v a ne)
  show "decodeWithSchema h (js ''score;n;'') scoreSchema = Inl (TypeMismatch (js ''score'') N X)"
    unfolding decodeWithSchema_def d scoreSchema_def
    by (simp add: hasProperty_def getProperty_def)
qed

text \<open>
  C7. The claim is that a schema field absent from the decoded record yields
  \<^verbatim>\<open>undefined\<close> when optional and a missing-key error when required, and that
  undeclared fields are dropped. For the optional field \<open>toString\<close> and the empty
  document the program does otherwise, for every host: \<^verbatim>\<open>'toString' in raw\<close> holds
  of the inherited function, whose kind \<^verbatim>\<open>inferAlias\<close> rejects.
\<close>

theorem decodeWithSchema_inherited_name:
  "decodeWithSchema h [] toStringSchema = Inl (UnsupportedType (js ''function''))"
proof -
  have rows: "documentRows [] = []" by code_simp
  have d: "decode h [] = Inr emptyObject" unfolding decode_def rows by simp
  have i: "inherited h ObjectPrototype (js ''toString'') = Some (VUnsupported (js ''function''))"
    by (simp add: inherited_def fromObjectPrototype_def objectPrototypeNames_def js_def)
  show ?thesis
    unfolding decodeWithSchema_def d toStringSchema_def
    by (simp add: hasProperty_def getProperty_def emptyObject_def i)
qed

lemma proto_name: "js ''__proto__'' \<in> set objectPrototypeNames"
  by (simp add: objectPrototypeNames_def)

lemma own_lookup:
  assumes "proto raw = ObjectPrototype" "k \<notin> set objectPrototypeNames"
  shows "hasProperty h raw k \<longleftrightarrow> map_of (props raw) k \<noteq> None"
    and "getProperty h raw k = (case map_of (props raw) k of Some v \<Rightarrow> v | None \<Rightarrow> VUndefined)"
proof -
  from assms(2) have "k \<noteq> js ''__proto__''" using proto_name by auto
  with assms have i: "inherited h (proto raw) k = None"
    by (simp add: inherited_def fromObjectPrototype_def)
  show "hasProperty h raw k \<longleftrightarrow> map_of (props raw) k \<noteq> None"
    by (simp add: hasProperty_def i map_of_eq_None_iff)
  show "getProperty h raw k = (case map_of (props raw) k of Some v \<Rightarrow> v | None \<Rightarrow> VUndefined)"
    by (simp add: getProperty_def i split: option.splits)
qed

text \<open>
  For schema fields that are not named like a member of \<^verbatim>\<open>Object.prototype\<close>, and a
  decoded record with the ordinary prototype, the validator is the policy: its
  result has exactly the schema's fields, in the schema's order (fields of the
  document that the schema does not declare are dropped), and its error is the
  first one the policy meets.
\<close>

lemma schemaLoop_policy:
  assumes "proto raw = ObjectPrototype" "distinct (map fst schema)"
    "\<forall>k \<in> set (map fst schema). k \<notin> set objectPrototypeNames"
    "set (map fst schema) \<inter> set (map fst ps) = {}"
  shows "schemaLoop h raw schema \<lparr>props = ps, proto = ObjectPrototype\<rparr> =
           (case policy raw schema of
              Inl e \<Rightarrow> Inl e
            | Inr entries \<Rightarrow> Inr \<lparr>props = ps @ entries, proto = ObjectPrototype\<rparr>)"
  using assms(2-4)
proof (induction schema arbitrary: ps)
  case Nil
  then show ?case by simp
next
  case (Cons entry schema)
  obtain k sv where entry: "entry = (k, sv)" by (cases entry)
  obtain expectedType optional where n: "normalizeSchemaValue sv = (expectedType, optional)"
    by (cases "normalizeSchemaValue sv")
  from Cons.prems entry have k: "k \<notin> set objectPrototypeNames" "k \<notin> set (map fst ps)" by auto
  then have kp: "k \<noteq> js ''__proto__''" using proto_name by auto
  note own = own_lookup[OF assms(1) k(1), of h]
  have a: "assign \<lparr>props = ps, proto = ObjectPrototype\<rparr> k v = Inr \<lparr>props = ps @ [(k, v)], proto = ObjectPrototype\<rparr>" for v
    using k(2) kp by (rule assign_fresh)
  have ih: "schemaLoop h raw schema \<lparr>props = ps @ [(k, v)], proto = ObjectPrototype\<rparr> =
           (case policy raw schema of
              Inl e \<Rightarrow> Inl e
            | Inr entries \<Rightarrow> Inr \<lparr>props = (ps @ [(k, v)]) @ entries, proto = ObjectPrototype\<rparr>)" for v
    using Cons.prems entry by (intro Cons.IH) auto
  show ?case
  proof (cases "map_of (props raw) k")
    case None
    then show ?thesis
      by (cases optional) (simp_all add: entry n own a ih fieldOutcome_def split: sum.splits)
  next
    case (Some v)
    then show ?thesis
      by (cases "inferAlias v") (simp_all add: entry n own a ih fieldOutcome_def split: sum.splits)
  qed
qed

lemma decodeWithSchema_policy:
  assumes "decode h str = Inr raw" "proto raw = ObjectPrototype" "distinct (map fst schema)"
    "\<forall>k \<in> set (map fst schema). k \<notin> set objectPrototypeNames"
  shows "decodeWithSchema h str schema =
           (case policy raw schema of
              Inl e \<Rightarrow> Inl e
            | Inr entries \<Rightarrow> Inr \<lparr>props = entries, proto = ObjectPrototype\<rparr>)"
  using schemaLoop_policy[OF assms(2,3,4), of "[]" h] assms(1)
  by (simp add: decodeWithSchema_def emptyObject_def split: sum.splits)

lemma policy_keys: "policy raw schema = Inr entries \<Longrightarrow> map fst entries = map fst schema"
  by (induction schema arbitrary: entries) (auto split: sum.splits)

text \<open>The example of the specification, and the example of the README.\<close>

lemma decodeWithSchema_example:
  "decodeWithSchema refHost (js ''a;n;1'') exampleSchema
     = Inr \<lparr>props = [(js ''a'', VNumber (Finite 1 0)), (js ''b'', VUndefined)], proto = ObjectPrototype\<rparr>"
  by code_simp

lemma readme_example_mismatch:
  "encode scenario = Inr scenarioDoc
   \<and> decodeWithSchema refHost scenarioDoc readmeSchema = Inl (TypeMismatch (js ''score'') N X)"
  by code_simp

end
